theory Spec2Isabelle
  imports Main "HOL-Library.Word" "HOL-Library.Log_Nat"
begin

section \<open>The implicit ring graph (example/implicit\_graph.cpp)\<close>

text \<open>
  The ring graph stores one number, its vertex count \<open>m_n\<close>, a \<open>std::size_t\<close>.
  Vertex descriptors are \<open>std::size_t\<close> too and an edge descriptor is a
  \<open>std::pair\<close> of two of them.  \<open>std::size_t\<close> is taken as the 64-bit unsigned
  integer of an LP64 platform: addition wraps modulo \<open>2 ^ 64\<close>.
\<close>

type_synonym size_t = "64 word"
type_synonym vertex_descriptor = size_t
type_synonym edge_descriptor = "vertex_descriptor \<times> vertex_descriptor"

record ring_graph =
  m_n :: size_t

definition ring :: "size_t \<Rightarrow> ring_graph" where
  "ring k = \<lparr>m_n = k\<rparr>"

definition n :: "ring_graph \<Rightarrow> size_t" where
  "n g = m_n g"

subsection \<open>Incident edges\<close>

text \<open>
  \<open>ring_incident_edge_iterator\<close> adapts a counting iterator: its state is the position
  \<open>p\<close> together with \<open>m_n\<close> and \<open>m_u\<close>.  The start iterator is at position 0, the
  end iterator at \<open>g.n() > 2 ? 2 : 1\<close>.  \<open>ring_offset\<close> is the \<open>int\<close> array
  \<open>{1, -1}\<close>; in \<open>m_u + ring_offset[p]\<close> the \<open>int\<close> is converted to
  \<open>std::size_t\<close>, so \<open>-1\<close> is added as \<open>2 ^ 64 - 1\<close>.
\<close>

definition ring_offset :: "int list" where
  "ring_offset = [1, - 1]"

definition incident_dereference :: "size_t \<Rightarrow> vertex_descriptor \<Rightarrow> size_t \<Rightarrow> edge_descriptor" where
  "incident_dereference mn mu p =
     (let v = (if mu = 0 \<and> p = 1 then mn - 1
               else (mu + word_of_int (ring_offset ! unat p)) mod mn)
      in (mu, v))"

definition incident_end :: "ring_graph \<Rightarrow> size_t" where
  "incident_end g = (if 2 < n g then 2 else 1)"

definition source :: "edge_descriptor \<Rightarrow> ring_graph \<Rightarrow> vertex_descriptor" where
  "source e g = fst e"

definition target :: "edge_descriptor \<Rightarrow> ring_graph \<Rightarrow> vertex_descriptor" where
  "target e g = snd e"

text \<open>
  \<open>out_edges(u, g)\<close> is the iterator pair (start, end); the sequence it denotes is the
  dereference of every position from 0 up to, not including, the end position.
\<close>

definition out_edges :: "vertex_descriptor \<Rightarrow> ring_graph \<Rightarrow> edge_descriptor list" where
  "out_edges u g =
     map (\<lambda>p. incident_dereference (n g) u (of_nat p)) [0 ..< unat (incident_end g)]"

definition out_degree :: "vertex_descriptor \<Rightarrow> ring_graph \<Rightarrow> size_t" where
  "out_degree u g = 2"

definition in_edges :: "vertex_descriptor \<Rightarrow> ring_graph \<Rightarrow> edge_descriptor list" where
  "in_edges u g = out_edges u g"

definition in_degree :: "vertex_descriptor \<Rightarrow> ring_graph \<Rightarrow> size_t" where
  "in_degree u g = out_degree u g"

definition degree :: "vertex_descriptor \<Rightarrow> ring_graph \<Rightarrow> size_t" where
  "degree u g = out_degree u g"

definition adjacent_vertices :: "vertex_descriptor \<Rightarrow> ring_graph \<Rightarrow> vertex_descriptor list" where
  "adjacent_vertices u g = map (\<lambda>e. target e g) (out_edges u g)"

subsection \<open>Vertex and edge lists\<close>

definition num_vertices :: "ring_graph \<Rightarrow> size_t" where
  "num_vertices g = n g"

definition vertices :: "ring_graph \<Rightarrow> vertex_descriptor list" where
  "vertices g = map of_nat [0 ..< unat (num_vertices g)]"

text \<open>
  \<open>ring_edge_iterator\<close> adapts a vertex iterator.  It starts at vertex 0 and ends at
  \<open>++(vertices(g).first)\<close>, that is 1, when \<open>g.n() == 2\<close>, and at
  \<open>vertices(g).second\<close> otherwise.  Dereferencing gives the first element of the
  incident edge list of the current vertex.
\<close>

definition edge_end :: "ring_graph \<Rightarrow> size_t" where
  "edge_end g = (if n g = 2 then 0 + 1 else num_vertices g)"

definition edge_dereference :: "ring_graph \<Rightarrow> vertex_descriptor \<Rightarrow> edge_descriptor" where
  "edge_dereference g v = incident_dereference (n g) v 0"

definition edges :: "ring_graph \<Rightarrow> edge_descriptor list" where
  "edges g = map (\<lambda>v. edge_dereference g (of_nat v)) [0 ..< unat (edge_end g)]"

definition num_edges :: "ring_graph \<Rightarrow> size_t" where
  "num_edges g = (if n g = 2 then 1 else n g)"

subsection \<open>Adjacency matrix query\<close>

text \<open>The failure branch returns a value-initialised pair, \<open>(0, 0)\<close>.\<close>

definition edge :: "vertex_descriptor \<Rightarrow> vertex_descriptor \<Rightarrow> ring_graph \<Rightarrow> edge_descriptor \<times> bool" where
  "edge u v g =
     (if (u = v + 1 \<or> v = u + 1) \<and>
         0 < u \<and> u < num_vertices g \<and> 0 < v \<and> v < num_vertices g
      then ((u, v), True)
      else ((0, 0), False))"

subsection \<open>Edge weights\<close>

text \<open>
  \<open>(e.first + e.second)/2.0\<close> adds two \<open>std::size_t\<close> (wrapping), converts the sum to
  \<open>double\<close> and halves it.  An IEEE 754 double has a 53-bit significand: the conversion
  rounds an integer of more than 53 bits to the nearest multiple of \<open>2 ^ k\<close>, \<open>k\<close> the
  number of bits beyond 53, ties to the even significand.  Halving a double that holds a
  non-negative integer is exact.  The result is given as the rational it denotes.
\<close>

definition double_of_nat :: "nat \<Rightarrow> rat" where
  "double_of_nat m =
     (let k = floorlog 2 m - 53;
          q = m div 2 ^ k;
          r = m mod 2 ^ k
      in of_nat ((if 2 ^ k < 2 * r \<or> (2 * r = 2 ^ k \<and> odd q) then q + 1 else q) * 2 ^ k))"

definition edge_weight_map :: "edge_descriptor \<Rightarrow> rat" where
  "edge_weight_map e = double_of_nat (unat (fst e + snd e)) / 2"

definition get_edge_weight :: "ring_graph \<Rightarrow> edge_descriptor \<Rightarrow> rat" where
  "get_edge_weight g e = edge_weight_map e"


text \<open>
  Two descriptors denote the same undirected connection when they are equal or one is
  the other with its endpoints swapped.
\<close>

definition same_connection :: "edge_descriptor \<Rightarrow> edge_descriptor \<Rightarrow> bool" where
  "same_connection e e' = (e = e' \<or> e = (snd e', fst e'))"

subsection \<open>Dijkstra search over the ring graph\<close>

text \<open>
  Modelled from the spec: \<open>dijkstra_shortest_paths\<close> (boost/graph/dijkstra\_shortest\_paths.hpp)
  is not among the source files.  Section 4.5 of the specification describes it: a
  tentative distance and predecessor per vertex, initially (infinite, undefined) except
  (0, source) at the source; repeatedly the unsettled vertex of minimum tentative
  distance is settled and each of its outgoing edges \<open>(u, v, w)\<close> is relaxed, updating
  \<open>dist[v]\<close> and \<open>pred[v]\<close> when \<open>dist[u] + w < dist[v]\<close>; it ends when all vertices
  are settled.  \<open>None\<close> stands for the infinite distance and the undefined predecessor.
  The distance and predecessor arrays are indexed through the identity vertex index map,
  as \<open>main\<close> sets them up; among several unsettled vertices of minimum distance the first
  in vertex order is taken.
\<close>

record dijkstra_state =
  dist :: "rat option list"
  pred :: "vertex_descriptor option list"
  unsettled :: "vertex_descriptor list"

fun dist_less :: "rat option \<Rightarrow> rat option \<Rightarrow> bool" where
  "dist_less (Some a) (Some b) = (a < b)"
| "dist_less (Some a) None = True"
| "dist_less None b = False"

definition relax :: "ring_graph \<Rightarrow> dijkstra_state \<Rightarrow> edge_descriptor \<Rightarrow> dijkstra_state" where
  "relax g st e =
     (let u = source e g; v = target e g; w = get_edge_weight g e
      in case dist st ! unat u of
           None \<Rightarrow> st
         | Some du \<Rightarrow>
             if dist_less (Some (du + w)) (dist st ! unat v)
             then st\<lparr>dist := (dist st)[unat v := Some (du + w)],
                     pred := (pred st)[unat v := Some u]\<rparr>
             else st)"

fun min_vertex :: "rat option list \<Rightarrow> vertex_descriptor \<Rightarrow> vertex_descriptor list \<Rightarrow> vertex_descriptor" where
  "min_vertex d m [] = m"
| "min_vertex d m (x # xs) = min_vertex d (if dist_less (d ! unat x) (d ! unat m) then x else m) xs"

text \<open>One round per vertex: each round settles one unsettled vertex.\<close>

fun dijkstra_rounds :: "nat \<Rightarrow> ring_graph \<Rightarrow> dijkstra_state \<Rightarrow> dijkstra_state" where
  "dijkstra_rounds 0 g st = st"
| "dijkstra_rounds (Suc k) g st =
     (case unsettled st of
        [] \<Rightarrow> st
      | x # xs \<Rightarrow>
          (let u = min_vertex (dist st) x xs
           in dijkstra_rounds k g
                (foldl (relax g) (st\<lparr>unsettled := remove1 u (x # xs)\<rparr>) (out_edges u g))))"

definition dijkstra_shortest_paths :: "ring_graph \<Rightarrow> vertex_descriptor \<Rightarrow> dijkstra_state" where
  "dijkstra_shortest_paths g s =
     (let k = unat (num_vertices g)
      in dijkstra_rounds k g
           \<lparr>dist = (replicate k None)[unat s := Some 0],
            pred = (replicate k None)[unat s := Some s],
            unsettled = vertices g\<rparr>)"

section \<open>File dependencies (example/file\_dependencies.cpp)\<close>

text \<open>
  The enumeration \<open>files_e\<close> numbers the files from 0; \<open>N\<close>, its last enumerator, is
  the number of files.  The enumerators are used as vertex indices.
\<close>

datatype files_e =
    dax_h | yow_h | boz_h | zow_h | foo_cpp
  | foo_o | bar_cpp | bar_o | libfoobar_a
  | zig_cpp | zig_o | zag_cpp | zag_o
  | libzigzag_a | killerapp

fun file_index :: "files_e \<Rightarrow> nat" where
  "file_index dax_h = 0"
| "file_index yow_h = 1"
| "file_index boz_h = 2"
| "file_index zow_h = 3"
| "file_index foo_cpp = 4"
| "file_index foo_o = 5"
| "file_index bar_cpp = 6"
| "file_index bar_o = 7"
| "file_index libfoobar_a = 8"
| "file_index zig_cpp = 9"
| "file_index zig_o = 10"
| "file_index zag_cpp = 11"
| "file_index zag_o = 12"
| "file_index libzigzag_a = 13"
| "file_index killerapp = 14"

definition N :: nat where
  "N = 15"

definition used_by :: "(nat \<times> nat) list" where
  "used_by = map (\<lambda>(a, b). (file_index a, file_index b))
     [(dax_h, foo_cpp), (dax_h, bar_cpp), (dax_h, yow_h),
      (yow_h, bar_cpp), (yow_h, zag_cpp),
      (boz_h, bar_cpp), (boz_h, zig_cpp), (boz_h, zag_cpp),
      (zow_h, foo_cpp),
      (foo_cpp, foo_o),
      (foo_o, libfoobar_a),
      (bar_cpp, bar_o),
      (bar_o, libfoobar_a),
      (libfoobar_a, libzigzag_a),
      (zig_cpp, zig_o),
      (zig_o, libzigzag_a),
      (zag_cpp, zag_o),
      (zag_o, libzigzag_a),
      (libzigzag_a, killerapp)]"

text \<open>
  Modelled from the spec: \<open>adjacency_list<vecS, vecS, bidirectionalS>\<close>
  (boost/graph/adjacency\_list.hpp) is not among the source files.  It is the stored graph
  of section 4.2 of the specification, built by the bulk edge-list constructor of
  section 6 from a sequence of (source, target) pairs and a vertex count; in bidirectional
  mode every edge is also in the incidence list of its target, so \<open>in_edges(v)\<close> are the
  edges with target \<open>v\<close>, in insertion order.
\<close>

record dep_graph =
  vertex_count :: nat
  edge_pairs :: "(nat \<times> nat) list"

definition Graph :: "(nat \<times> nat) list \<Rightarrow> nat \<Rightarrow> dep_graph" where
  "Graph es k = \<lparr>vertex_count = k, edge_pairs = es\<rparr>"

definition dep_source :: "nat \<times> nat \<Rightarrow> dep_graph \<Rightarrow> nat" where
  "dep_source e g = fst e"

definition dep_in_edges :: "nat \<Rightarrow> dep_graph \<Rightarrow> (nat \<times> nat) list" where
  "dep_in_edges v g = filter (\<lambda>e. snd e = v) (edge_pairs g)"

definition dep_in_degree :: "nat \<Rightarrow> dep_graph \<Rightarrow> nat" where
  "dep_in_degree v g = length (dep_in_edges v g)"

text \<open>
  The parallel compilation ordering of \<open>main\<close>.  The loop runs over \<open>make_order\<close>, the
  list that \<open>topological_sort\<close> filled, with the loop variable \<open>vertex\<close>; the slot it
  writes is \<open>time[*i]\<close>, where \<open>i\<close> is the \<open>MakeOrder::iterator\<close> declared above the
  loop and never assigned.  Dereferencing such an iterator is undefined; the model takes
  what the dereference does as the parameter \<open>i\<close>: \<open>None\<close> when it faults, \<open>Some k\<close>
  when it reads the value \<open>k\<close>.  A write outside the vector is a fault as well.
\<close>

datatype fault = Singular_iterator_dereferenced | Index_out_of_range

fun time_loop :: "dep_graph \<Rightarrow> nat option \<Rightarrow> nat list \<Rightarrow> int list \<Rightarrow> fault + int list" where
  "time_loop g i [] time = Inr time"
| "time_loop g i (vertex # rest) time =
     (if 0 < dep_in_degree vertex g
      then (let maxdist = foldl (\<lambda>maxdist edge. max (time ! dep_source edge g) maxdist) 0
                            (dep_in_edges vertex g)
            in case i of
                 None \<Rightarrow> Inl Singular_iterator_dereferenced
               | Some k \<Rightarrow>
                   if k < length time then time_loop g i rest (time[k := maxdist + 1])
                   else Inl Index_out_of_range)
      else time_loop g i rest time)"

definition parallel_times :: "nat option \<Rightarrow> nat list \<Rightarrow> fault + int list" where
  "parallel_times i make_order = time_loop (Graph used_by N) i make_order (replicate N 0)"

section \<open>Six degrees of Kevin Bacon (example/kevin-bacon.cpp)\<close>

text \<open>
  Modelled from the spec: the graph type
  \<open>adjacency_list<vecS, vecS, undirectedS, property<vertex_name_t, std::string>,
  property<edge_name_t, std::string>>\<close> (boost/graph/adjacency\_list.hpp) is not among the
  source files.  It is the stored graph of section 4.2 of the specification:
  \<open>add_vertex()\<close> appends a vertex and returns its index; \<open>add_edge(u,v)\<close> appends an
  edge and returns its descriptor with the inserted flag; in undirected mode the edge is
  in the incidence lists of both endpoints; names are properties attached to vertices
  and edges.  The vertex names are the list \<open>actor_name\<close> indexed by vertex, the edges
  the list \<open>edge_ends\<close> in insertion order, and \<open>connecting_movie\<close> the edge names,
  indexed by the position of the edge.
\<close>

record actor_graph =
  actor_name :: "string list"
  edge_ends :: "(nat \<times> nat) list"
  connecting_movie :: "string list"

definition empty_graph :: actor_graph where
  "empty_graph = \<lparr>actor_name = [], edge_ends = [], connecting_movie = []\<rparr>"

definition graph_num_vertices :: "actor_graph \<Rightarrow> nat" where
  "graph_num_vertices g = length (actor_name g)"

definition add_vertex :: "actor_graph \<Rightarrow> nat \<times> actor_graph" where
  "add_vertex g = (length (actor_name g), g\<lparr>actor_name := actor_name g @ [[]]\<rparr>)"

definition add_edge :: "nat \<Rightarrow> nat \<Rightarrow> actor_graph \<Rightarrow> (nat \<times> bool) \<times> actor_graph" where
  "add_edge u v g =
     ((length (edge_ends g), True),
      g\<lparr>edge_ends := edge_ends g @ [(u, v)], connecting_movie := connecting_movie g @ [[]]\<rparr>)"

text \<open>The out-edges of \<open>w\<close>, each as the pair (source, target) seen from \<open>w\<close>.\<close>

definition graph_out_edges :: "nat \<Rightarrow> actor_graph \<Rightarrow> (nat \<times> nat) list" where
  "graph_out_edges w g =
     concat (map (\<lambda>(u, v). (if u = w then [(w, v)] else []) @ (if v = w then [(w, u)] else []))
                 (edge_ends g))"

text \<open>
  The reading loop of \<open>main\<close>.  A line is taken as its three tokens: the actor, the
  movie and the co-actor.  \<open>actors\<close> is the \<open>std::map\<close> from names to vertices;
  \<open>insert\<close> leaves the map alone when the name is already a key.  The two
  lookup-or-insert blocks of the loop body are the function \<open>insert_actor\<close>.
\<close>

type_synonym NameVertexMap = "string \<rightharpoonup> nat"

definition insert_actor ::
  "string \<Rightarrow> actor_graph \<times> NameVertexMap \<Rightarrow> nat \<times> actor_graph \<times> NameVertexMap" where
  "insert_actor name ga =
     (let (g, actors) = ga
      in case actors name of
           None \<Rightarrow>
             (let (u, g') = add_vertex g
              in (u, g'\<lparr>actor_name := (actor_name g')[u := name]\<rparr>, actors(name \<mapsto> u)))
         | Some u \<Rightarrow> (u, g, actors))"

definition read_line ::
  "actor_graph \<times> NameVertexMap \<Rightarrow> string \<times> string \<times> string \<Rightarrow> actor_graph \<times> NameVertexMap" where
  "read_line ga line =
     (let (actors_name, movie_name, co_actor) = line;
          (u, g1, actors1) = insert_actor actors_name ga;
          (v, g2, actors2) = insert_actor co_actor (g1, actors1);
          ((e, insertede), g3) = add_edge u v g2
      in (if insertede then g3\<lparr>connecting_movie := (connecting_movie g3)[e := movie_name]\<rparr> else g3,
          actors2))"

definition build :: "(string \<times> string \<times> string) list \<Rightarrow> actor_graph \<times> NameVertexMap" where
  "build datafile = foldl read_line (empty_graph, Map.empty) datafile"

subsection \<open>Breadth-first search with the Bacon number recorder\<close>

text \<open>
  The distances are the entries of a \<open>std::vector<int>\<close>, and an \<open>int\<close> has 32 bits:
  an entry is a word of 32 bits, read as a signed number by \<open>sint\<close>.
  \<open>bacon_number_recorder::tree_edge\<close>: the distance of the target of a tree edge is the
  distance of its source plus one.  The language leaves the sum undefined when the
  distance of the source is \<open>2147483647\<close>; the addition of the model wraps around there,
  as the machine's does.
\<close>

type_synonym int32 = "32 word"

definition tree_edge :: "nat \<times> nat \<Rightarrow> actor_graph \<Rightarrow> int32 list \<Rightarrow> int32 list" where
  "tree_edge e g d = (let u = fst e; v = snd e in d[v := d ! u + 1])"

text \<open>
  Modelled from the spec: \<open>breadth_first_search\<close> (boost/graph/breadth\_first\_search.hpp)
  is not among the source files.  Section 4.5 of the specification describes it:
  vertices are explored in non-decreasing hop distance from the source, and each
  non-source vertex fires exactly one tree-edge event.  The model is the queue-based
  search: the source is discovered and enqueued; the vertex at the head of the queue is
  taken out and its out-edges are examined in order; an edge to an undiscovered vertex is
  a tree edge, for which the visitor's \<open>tree_edge\<close> is called and whose target is
  discovered and enqueued.  \<open>tree_edge_events\<close> records the tree edges in the order in
  which they fire.  The loop takes its number of rounds as an argument and gives
  \<open>None\<close> when the queue is not empty after that many rounds.
\<close>

record bfs_state =
  queue :: "nat list"
  discovered :: "bool list"
  bacon_number :: "int32 list"
  tree_edge_events :: "(nat \<times> nat) list"

definition examine_edge :: "actor_graph \<Rightarrow> bfs_state \<Rightarrow> nat \<times> nat \<Rightarrow> bfs_state" where
  "examine_edge g st e =
     (let v = snd e
      in if discovered st ! v then st
         else st\<lparr>bacon_number := tree_edge e g (bacon_number st),
                 tree_edge_events := tree_edge_events st @ [e],
                 discovered := (discovered st)[v := True],
                 queue := queue st @ [v]\<rparr>)"

fun bfs_loop :: "actor_graph \<Rightarrow> nat \<Rightarrow> bfs_state \<Rightarrow> bfs_state option" where
  "bfs_loop g 0 st = (if queue st = [] then Some st else None)"
| "bfs_loop g (Suc k) st =
     (case queue st of
        [] \<Rightarrow> Some st
      | u # q \<Rightarrow> bfs_loop g k (foldl (examine_edge g) (st\<lparr>queue := q\<rparr>) (graph_out_edges u g)))"

definition breadth_first_search :: "actor_graph \<Rightarrow> nat \<Rightarrow> int32 list \<Rightarrow> bfs_state option" where
  "breadth_first_search g s d =
     bfs_loop g (graph_num_vertices g)
       \<lparr>queue = [s],
        discovered = (replicate (graph_num_vertices g) False)[s := True],
        bacon_number = d,
        tree_edge_events = []\<rparr>"

text \<open>
  The end of \<open>main\<close>: the vector \<open>bacon_number\<close> has one zero-initialised entry per
  vertex; \<open>actors["Kevin Bacon"]\<close> is the vertex of that name, or a newly inserted
  entry with the value-initialised vertex 0 when the name is not a key; the entry of
  the source is set to 0 and the search runs from the source.
\<close>

definition kevin_bacon :: "(string \<times> string \<times> string) list \<Rightarrow> fault + bfs_state option" where
  "kevin_bacon datafile =
     (let (g, actors) = build datafile;
          bacon_number = replicate (graph_num_vertices g) 0;
          src = (case actors ''Kevin Bacon'' of None \<Rightarrow> 0 | Some v \<Rightarrow> v)
      in if src < length bacon_number
         then Inr (breadth_first_search g src (bacon_number[src := 0]))
         else Inl Index_out_of_range)"

text \<open>
  Paths in the co-appearance graph: \<open>hops g s v k\<close> says that some path of \<open>k\<close> edges
  leads from \<open>s\<close> to \<open>v\<close>, every edge being usable in both directions.
\<close>

definition joined :: "actor_graph \<Rightarrow> nat \<Rightarrow> nat \<Rightarrow> bool" where
  "joined g u v = ((u, v) \<in> set (edge_ends g) \<or> (v, u) \<in> set (edge_ends g))"

inductive hops :: "actor_graph \<Rightarrow> nat \<Rightarrow> nat \<Rightarrow> nat \<Rightarrow> bool" for g s where
  hops_source: "hops g s s 0"
| hops_edge: "hops g s u k \<Longrightarrow> joined g u v \<Longrightarrow> hops g s v (Suc k)"

definition well_formed :: "actor_graph \<Rightarrow> bool" where
  "well_formed g = list_all (\<lambda>(u, v). u < graph_num_vertices g \<and> v < graph_num_vertices g) (edge_ends g)"

subsection \<open>Notions used to state the properties\<close>

text \<open>
  The names read from the data file, in reading order, and the edges of a graph read
  back as lines: the names of the two end vertices with the name of the edge between
  them.
\<close>

definition names_of :: "(string \<times> string \<times> string) list \<Rightarrow> string list" where
  "names_of datafile = concat (map (\<lambda>(actors_name, movie_name, co_actor). [actors_name, co_actor]) datafile)"

definition edge_records :: "actor_graph \<Rightarrow> (string \<times> string \<times> string) list" where
  "edge_records g =
     map (\<lambda>((u, v), movie_name). (actor_name g ! u, movie_name, actor_name g ! v))
         (zip (edge_ends g) (connecting_movie g))"

text \<open>
  The name map indexes the vertex names: the names are pairwise different, and the map
  sends a name to a vertex exactly when that vertex carries the name.  A pair of graph
  and name map reflects a data file when moreover the vertex names are the names of the
  file, every edge joins two vertices of the graph and the edges read back are the lines
  of the file.
\<close>

definition names_indexed :: "actor_graph \<Rightarrow> NameVertexMap \<Rightarrow> bool" where
  "names_indexed g actors =
     (distinct (actor_name g) \<and>
      (\<forall>name u. actors name = Some u \<longleftrightarrow> u < length (actor_name g) \<and> actor_name g ! u = name))"

definition reflects :: "(string \<times> string \<times> string) list \<Rightarrow> actor_graph \<times> NameVertexMap \<Rightarrow> bool" where
  "reflects datafile ga =
     (let (g, actors) = ga
      in distinct (actor_name g) \<and>
         set (actor_name g) = set (names_of datafile) \<and>
         (\<forall>name u. actors name = Some u \<longleftrightarrow> u < graph_num_vertices g \<and> actor_name g ! u = name) \<and>
         well_formed g \<and>
         length (connecting_movie g) = length (edge_ends g) \<and>
         edge_records g = datafile)"

text \<open>A small data file: two lines share their pair of actors and two actors are apart.\<close>

definition demo :: "(string \<times> string \<times> string) list" where
  "demo = [(''Kevin Bacon'', ''M1'', ''A''), (''A'', ''M2'', ''B''), (''C'', ''M3'', ''D''),
           (''Kevin Bacon'', ''M4'', ''A'')]"

text \<open>
  A vertex is discovered when its colour entry is set; \<open>dv\<close> reads the distance array,
  each entry as a signed number.
  The invariant of the search, over the discovered set \<open>D\<close>, the distances \<open>d\<close>, the
  tree edges \<open>L\<close> fired so far and the queue \<open>vq\<close> (with the vertex being examined
  at its head): the queue holds discovered vertices in non-decreasing distance, its last
  at most one above its first; a discovered vertex has a path of the length of its
  distance; a discovered vertex outside the queue has every neighbour discovered, at
  most one further away; the targets of the tree edges are the discovered vertices
  other than the source, each once; undiscovered vertices keep their initial entry; and
  every distance is below the number of discovered vertices.
\<close>

definition dsc :: "bfs_state \<Rightarrow> nat \<Rightarrow> bool" where
  "dsc st v = (v < length (discovered st) \<and> discovered st ! v)"

definition dv :: "bfs_state \<Rightarrow> nat \<Rightarrow> int" where
  "dv st v = sint (bacon_number st ! v)"

definition bfs_inv ::
  "actor_graph \<Rightarrow> nat \<Rightarrow> int list \<Rightarrow> (nat \<Rightarrow> bool) \<Rightarrow> (nat \<Rightarrow> int) \<Rightarrow> (nat \<times> nat) list \<Rightarrow> nat list \<Rightarrow> bool" where
  "bfs_inv g s d0 D d L vq \<longleftrightarrow>
     distinct vq \<and> (\<forall>q \<in> set vq. D q) \<and> (\<forall>v. D v \<longrightarrow> v < graph_num_vertices g) \<and>
     D s \<and> d s = 0 \<and>
     (\<forall>v. D v \<longrightarrow> 0 \<le> d v \<and> hops g s v (nat (d v))) \<and>
     sorted (map d vq) \<and> (vq \<noteq> [] \<longrightarrow> d (last vq) \<le> d (hd vq) + 1) \<and>
     (\<forall>x. D x \<and> x \<notin> set vq \<longrightarrow>
        (\<forall>q \<in> set vq. d x \<le> d q) \<and> (\<forall>w. joined g x w \<longrightarrow> D w \<and> d w \<le> d x + 1)) \<and>
     distinct (map snd L) \<and> snd ` set L = {v. D v} - {s} \<and>
     (\<forall>e \<in> set L. D (fst e) \<and> joined g (fst e) (snd e) \<and> d (snd e) = d (fst e) + 1) \<and>
     (\<forall>v < graph_num_vertices g. \<not> D v \<longrightarrow> d v = d0 ! v) \<and>
     (\<forall>v. D v \<longrightarrow> d v < int (card {x. D x}))"

definition examining :: "actor_graph \<Rightarrow> nat \<Rightarrow> int32 list \<Rightarrow> nat list \<Rightarrow> bfs_state \<Rightarrow> bool" where
  "examining g s d0 vq st \<longleftrightarrow>
     length (discovered st) = graph_num_vertices g \<and>
     length (bacon_number st) = graph_num_vertices g \<and>
     bfs_inv g s (map sint d0) (dsc st) (dv st) (tree_edge_events st) vq"

text \<open>The bound on the rounds still to run: the queue and the undiscovered vertices.\<close>

definition pending :: "actor_graph \<Rightarrow> bfs_state \<Rightarrow> nat" where
  "pending g st = length (queue st) + card {v. v < graph_num_vertices g \<and> \<not> dsc st v}"

text \<open>
  What the search leaves behind, for every vertex \<open>v\<close>.  If some path leads from the
  source to \<open>v\<close>: the entry of \<open>v\<close>, read as a signed number, is the length of a path
  and no path is shorter; no tree edge has the source as its target; and a vertex other
  than the source is the target of exactly one tree edge \<open>(u, v)\<close>, an edge of the graph,
  with the entry of \<open>v\<close> one above the entry of \<open>u\<close> as numbers.  If no path leads to
  \<open>v\<close>: the entry of \<open>v\<close> is the one the array \<open>d0\<close> had before the search and no
  tree edge has target \<open>v\<close>.
\<close>

definition bfs_postcondition :: "actor_graph \<Rightarrow> nat \<Rightarrow> int32 list \<Rightarrow> bfs_state \<Rightarrow> bool" where
  "bfs_postcondition g s d0 st =
     (\<forall>v < graph_num_vertices g.
        if \<exists>k. hops g s v k
        then 0 \<le> sint (bacon_number st ! v) \<and>
             hops g s v (nat (sint (bacon_number st ! v))) \<and>
             (\<forall>k. hops g s v k \<longrightarrow> sint (bacon_number st ! v) \<le> int k) \<and>
             (if v = s then filter (\<lambda>e. snd e = v) (tree_edge_events st) = []
              else \<exists>u. filter (\<lambda>e. snd e = v) (tree_edge_events st) = [(u, v)] \<and> joined g u v \<and>
                     sint (bacon_number st ! v) = sint (bacon_number st ! u) + 1)
        else bacon_number st ! v = d0 ! v \<and> filter (\<lambda>e. snd e = v) (tree_edge_events st) = [])"

section \<open>Elementary circuits (test/hawick\_circuits.cpp)\<close>
















section \<open>Properties of the ring graph\<close>

subsection \<open>Arithmetic on the ring\<close>

lemma succ_mod: "u < (k::size_t) \<Longrightarrow> (u + 1) mod k = (if u + 1 = k then 0 else u + 1)"
  by (metis inc_less_eq_iff mod_word_less mod_word_self word_le_less_eq)

lemma pred_mod: "0 < u \<Longrightarrow> u < (k::size_t) \<Longrightarrow> (u - 1) mod k = u - 1"
  by (metis less_eq_dec_iff mod_word_less order.strict_trans1 word_gt_0 word_le_sub1 word_sub_le)

lemma pred_less: "(k::size_t) \<noteq> 0 \<Longrightarrow> k - 1 < k"
  by (metis antisym_conv3 less_eq_dec_triv_imp word_le_less_eq)

lemma word_pos: "u < (k::size_t) \<Longrightarrow> 0 < k"
  using word_gt_0 by fastforce

lemma of_nat_lt: "i < unat (k::size_t) \<Longrightarrow> (of_nat i :: size_t) < k"
  by (metis le_unat_uoi order_less_le word_less_nat_alt)

lemma unat_of_nat_lt: "i < unat (k::size_t) \<Longrightarrow> unat (of_nat i :: size_t) = i"
  by (meson le_unat_uoi order_less_le)


lemma ring_no_two_cycle:
  fixes a b k :: size_t
  assumes "a < k" "b < k" "a \<noteq> b" "2 < k" "a = (b + 1) mod k" "(a + 1) mod k = b"
  shows False
  using assms by (simp add: succ_mod split: if_splits)

lemma small_ring_cases:
  fixes u k :: size_t
  assumes "\<not> 2 < k" "u < k"
  shows "k = 1 \<and> u = 0 \<or> k = 2 \<and> u = 0 \<or> k = 2 \<and> u = 1"
  using assms by unat_arith

subsection \<open>The iterators unfolded\<close>

lemma deref0: "incident_dereference k u 0 = (u, (u + 1) mod k)"
  by (simp add: incident_dereference_def ring_offset_def)

lemma deref1: "incident_dereference k u 1 = (u, if u = 0 then k - 1 else (u - 1) mod k)"
  by (simp add: incident_dereference_def ring_offset_def)

lemma out_edges_unfold:
  "out_edges u g =
     (if 2 < n g then [incident_dereference (n g) u 0, incident_dereference (n g) u 1]
      else [incident_dereference (n g) u 0])"
  by (simp add: out_edges_def incident_end_def upt_rec)

lemma edge_end_num_edges: "edge_end g = num_edges g"
  by (simp add: edge_end_def num_edges_def num_vertices_def)

lemma edges_unfold:
  "edges g = map (\<lambda>v. (of_nat v, (of_nat v + 1) mod n g)) [0 ..< unat (num_edges g)]"
  by (simp add: edges_def edge_end_num_edges edge_dereference_def deref0)

lemma num_edges_le: "unat (num_edges g) \<le> unat (n g)"
  by (simp add: num_edges_def)

lemma length_edges: "length (edges g) = unat (num_edges g)"
  by (simp add: edges_unfold)

lemma edges_nth:
  "i < length (edges g) \<Longrightarrow> edges g ! i = (of_nat i, (of_nat i + 1) mod n g)"
  by (simp add: edges_unfold)

lemma target_bound:
  assumes "u < n g" and "e \<in> set (out_edges u g)"
  shows "fst e = u \<and> snd e < n g"
proof -
  from assms(1) have pos: "0 < n g"
    by (rule word_pos)
  have a: "(u + 1) mod n g < n g"
    using pos by (simp add: word_mod_less_divisor)
  have b: "(u - 1) mod n g < n g"
    using pos by (simp add: word_mod_less_divisor)
  have c: "n g - 1 < n g"
    using pos by (simp add: pred_less)
  from assms(2) show ?thesis
    using a b c by (auto simp: out_edges_unfold deref0 deref1 split: if_splits)
qed


lemma edges_distinct_connections:
  assumes "i < length (edges g)" "j < length (edges g)" "i \<noteq> j"
  shows "\<not> same_connection (edges g ! i) (edges g ! j)"
proof
  assume sc: "same_connection (edges g ! i) (edges g ! j)"
  let ?a = "of_nat i :: size_t" and ?b = "of_nat j :: size_t"
  from assms have li: "i < unat (n g)" and lj: "j < unat (n g)"
    using num_edges_le [of g] by (simp_all add: length_edges)
  then have a: "?a < n g" and b: "?b < n g"
    by (simp_all add: of_nat_lt)
  from li lj assms(3) have ab: "?a \<noteq> ?b"
    by (metis unat_of_nat_lt)
  from assms have two: "2 \<le> unat (num_edges g)"
    by (simp add: length_edges)
  then have ne2: "n g \<noteq> 2"
    by (auto simp: num_edges_def)
  with two have "2 \<le> unat (n g)"
    by (simp add: num_edges_def)
  with ne2 have big: "2 < n g"
    by unat_arith
  from sc ab have "?a = (?b + 1) mod n g \<and> (?a + 1) mod n g = ?b"
    using assms by (auto simp: same_connection_def edges_nth)
  with ring_no_two_cycle [OF a b ab big] show False
    by blast
qed

lemma edges_mem:
  assumes "w < num_edges g"
  shows "(w, (w + 1) mod n g) \<in> set (edges g)"
proof -
  from assms have "unat w < unat (num_edges g)"
    by (simp add: word_less_nat_alt)
  then have "unat w \<in> set [0 ..< unat (num_edges g)]"
    by simp
  then have "(\<lambda>v. (of_nat v, (of_nat v + 1) mod n g)) (unat w) \<in> set (edges g)"
    unfolding edges_unfold set_map by (rule imageI)
  then show ?thesis
    by simp
qed

lemma out_edges_covered:
  assumes "u < n g" and "e \<in> set (out_edges u g)"
  shows "\<exists>e' \<in> set (edges g). same_connection e e'"
proof (cases "2 < n g")
  case True
  then have ne: "num_edges g = n g"
    by (auto simp: num_edges_def)
  from True have nz: "n g \<noteq> 0"
    by auto
  from assms(2) True consider (fwd) "e = (u, (u + 1) mod n g)"
    | (wrap) "u = 0" "e = (0, n g - 1)" | (bwd) "u \<noteq> 0" "e = (u, (u - 1) mod n g)"
    by (auto simp: out_edges_unfold deref0 deref1 split: if_splits)
  then show ?thesis
  proof cases
    case fwd
    with assms(1) show ?thesis
      using edges_mem [of u g] by (auto simp: ne same_connection_def)
  next
    case wrap
    have "(n g - 1, (n g - 1 + 1) mod n g) \<in> set (edges g)"
      using nz by (intro edges_mem) (simp add: ne pred_less)
    then have "(n g - 1, 0) \<in> set (edges g)"
      by simp
    with wrap show ?thesis
      by (intro bexI [where x = "(n g - 1, 0)"]) (simp_all add: same_connection_def)
  next
    case bwd
    then have pos: "0 < u"
      by (simp add: word_gt_0)
    have lt: "u - 1 < n g"
      using pos assms(1) by (metis pred_mod word_mod_less_divisor word_pos)
    have "(u - 1, (u - 1 + 1) mod n g) \<in> set (edges g)"
      using lt by (intro edges_mem) (simp add: ne)
    then have "(u - 1, u) \<in> set (edges g)"
      using assms(1) by (simp add: mod_word_less)
    with bwd pos assms(1) show ?thesis
      by (intro bexI [where x = "(u - 1, u)"]) (simp_all add: same_connection_def pred_mod)
  qed
next
  case False
  with assms(2) have e: "e = (u, (u + 1) mod n g)"
    by (auto simp: out_edges_unfold deref0)
  from False assms(1) consider "n g = 1" "u = 0" | "n g = 2" "u = 0" | "n g = 2" "u = 1"
    using small_ring_cases by blast
  then show ?thesis
  proof cases
    case 1
    then show ?thesis
      using edges_mem [of 0 g] e by (auto simp: num_edges_def same_connection_def)
  next
    case 2
    then show ?thesis
      using edges_mem [of 0 g] e by (auto simp: num_edges_def same_connection_def)
  next
    case 3
    then have "(0, 1) \<in> set (edges g)"
      using edges_mem [of 0 g] by (simp add: num_edges_def)
    with 3 e show ?thesis
      by (intro bexI [where x = "(0, 1)"]) (simp_all add: same_connection_def)
  qed
qed

subsection \<open>The ring of five vertices\<close>

lemma ring5_n: "n (ring 5) = 5"
  by (simp add: n_def ring_def)

lemma ring5_out_edges:
  "out_edges 0 (ring 5) = [(0, 1), (0, 4)]"
  "out_edges 1 (ring 5) = [(1, 2), (1, 0)]"
  "out_edges 2 (ring 5) = [(2, 3), (2, 1)]"
  "out_edges 3 (ring 5) = [(3, 4), (3, 2)]"
  "out_edges 4 (ring 5) = [(4, 0), (4, 3)]"
  by (simp_all add: out_edges_unfold ring5_n deref0 deref1)

lemma ring5_vertices: "vertices (ring 5) = [0, 1, 2, 3, 4]"
  by (simp add: vertices_def num_vertices_def ring5_n upt_rec)

lemma ring5_edges: "edges (ring 5) = [(0, 1), (1, 2), (2, 3), (3, 4), (4, 0)]"
  by (simp add: edges_unfold num_edges_def ring5_n upt_rec)

lemma double_of_nat_exact: "m < 2 ^ 53 \<Longrightarrow> double_of_nat m = of_nat m"
proof -
  assume "m < 2 ^ 53"
  then have "floorlog 2 m \<le> 53"
    by (intro floorlog_leI) simp_all
  then show ?thesis
    by (simp add: double_of_nat_def)
qed

lemma ring5_weights:
  "get_edge_weight g (0, 1) = 1 / 2"
  "get_edge_weight g (0, 4) = 2"
  "get_edge_weight g (1, 2) = 3 / 2"
  "get_edge_weight g (1, 0) = 1 / 2"
  "get_edge_weight g (2, 3) = 5 / 2"
  "get_edge_weight g (2, 1) = 3 / 2"
  "get_edge_weight g (3, 4) = 7 / 2"
  "get_edge_weight g (3, 2) = 5 / 2"
  "get_edge_weight g (4, 0) = 2"
  "get_edge_weight g (4, 3) = 7 / 2"
  by (simp_all add: get_edge_weight_def edge_weight_map_def double_of_nat_exact)

lemma unat_sum_exact:
  fixes a b :: size_t
  assumes "unat a + unat b < 2 ^ 53"
  shows "unat (a + b) = unat a + unat b"
proof -
  have "unat a + unat b < 2 ^ LENGTH(64)"
    using assms by simp
  then show ?thesis
    by (rule unat_add_lem [THEN iffD1])
qed

lemma rep5: "replicate 5 x = [x, x, x, x, x]"
  by (simp add: numeral_eq_Suc)

lemma ring5_num_vertices: "unat (num_vertices (ring 5)) = 5"
  by (simp add: num_vertices_def ring5_n)

lemma dijkstra_rounds_step:
  "0 < k \<Longrightarrow> dijkstra_rounds k g st =
     (case unsettled st of
        [] \<Rightarrow> st
      | x # xs \<Rightarrow>
          (let u = min_vertex (dist st) x xs
           in dijkstra_rounds (k - 1) g
                (foldl (relax g) (st\<lparr>unsettled := remove1 u (x # xs)\<rparr>) (out_edges u g))))"
  by (cases k) (simp_all split: list.splits)

subsection \<open>The adjacency matrix query\<close>

text \<open>
  Claim C1 says that \<open>edge(u, v)\<close> reports an edge exactly when \<open>u\<close> and \<open>v\<close> are
  neighbours on the ring, the pair of vertex 0 and vertex \<open>n - 1\<close> included, in
  agreement with \<open>out_edges(u)\<close>.  The function as written demands \<open>u > 0\<close> and
  \<open>v > 0\<close>, so no query with vertex 0 as an endpoint is ever answered with true: on the
  ring of five vertices \<open>out_edges\<close> yields \<open>(0, 1)\<close>, \<open>(0, 4)\<close>, \<open>(1, 0)\<close> and
  \<open>(4, 0)\<close>, while \<open>edge\<close> answers false, with the descriptor \<open>(0, 0)\<close>, for each of
  these pairs.
\<close>

theorem edge_misses_vertex_zero:
  "\<not> snd (edge 0 v g) \<and> \<not> snd (edge u 0 g) \<and>
   (0, 1) \<in> set (out_edges 0 (ring 5)) \<and> edge 0 1 (ring 5) = ((0, 0), False) \<and>
   (0, 4) \<in> set (out_edges 0 (ring 5)) \<and> edge 0 4 (ring 5) = ((0, 0), False) \<and>
   (1, 0) \<in> set (out_edges 1 (ring 5)) \<and> edge 1 0 (ring 5) = ((0, 0), False) \<and>
   (4, 0) \<in> set (out_edges 4 (ring 5)) \<and> edge 4 0 (ring 5) = ((0, 0), False)"
  by (simp add: edge_def ring5_out_edges)

subsection \<open>Degrees\<close>

text \<open>
  Claim C4 says that \<open>out_degree(u)\<close> is the number of edges of \<open>out_edges(u)\<close> for
  every size of the ring, while the degree 2 is reported for the sizes 1 and 2 as well.
  On the ring of two vertices \<open>out_degree\<close> is 2 and \<open>out_edges(0)\<close> has one edge.
\<close>

theorem out_degree_counterexample:
  "unat (out_degree 0 (ring 2)) \<noteq> length (out_edges 0 (ring 2))"
  by (simp add: out_degree_def out_edges_unfold n_def ring_def)

text \<open>
  Claim C4 as amended: \<open>out_degree(u)\<close> is 2 for every ring and every vertex;
  \<open>out_edges(u)\<close> has two edges when the ring has more than two vertices and one edge
  otherwise, so the two agree exactly on the rings of more than two vertices.
\<close>

theorem out_degree_and_out_edges:
  "unat (out_degree u g) = 2 \<and> length (out_edges u g) = (if 2 < n g then 2 else 1)"
  by (simp add: out_degree_def out_edges_unfold)

subsection \<open>The edge list\<close>

text \<open>
  Claim C7: for a ring of at least one vertex, \<open>num_edges\<close> is the number of vertices,
  except 1 for two vertices; \<open>edges\<close> has \<open>num_edges\<close> entries; their sources are the
  first \<open>num_edges\<close> vertices in increasing order (all vertices, except only vertex 0
  for two vertices); the entry of vertex \<open>v\<close> is the first out-edge of \<open>v\<close>, the pair
  of \<open>v\<close> and \<open>(v + 1) mod n\<close>; no two entries denote the same connection; and every
  out-edge of every vertex denotes the connection of some entry.
\<close>

theorem edges_enumeration:
  "1 \<le> n g \<Longrightarrow>
   num_edges g = (if n g = 2 then 1 else n g) \<and>
   length (edges g) = unat (num_edges g) \<and>
   map fst (edges g) = take (unat (num_edges g)) (vertices g) \<and>
   (\<forall>e \<in> set (edges g). e = hd (out_edges (fst e) g) \<and> e = (fst e, (fst e + 1) mod n g)) \<and>
   (\<forall>i < length (edges g). \<forall>j < length (edges g).
      i \<noteq> j \<longrightarrow> \<not> same_connection (edges g ! i) (edges g ! j)) \<and>
   (\<forall>u e. u < n g \<and> e \<in> set (out_edges u g) \<longrightarrow> (\<exists>e' \<in> set (edges g). same_connection e e'))"
proof -
  have a: "num_edges g = (if n g = 2 then 1 else n g)"
    by (simp add: num_edges_def)
  have c: "map fst (edges g) = take (unat (num_edges g)) (vertices g)"
    using num_edges_le [of g]
    by (simp add: edges_unfold vertices_def num_vertices_def take_map o_def min_def)
  have d: "\<forall>e \<in> set (edges g). e = hd (out_edges (fst e) g) \<and> e = (fst e, (fst e + 1) mod n g)"
    by (auto simp: edges_unfold out_edges_unfold deref0)
  have e: "\<forall>i < length (edges g). \<forall>j < length (edges g).
      i \<noteq> j \<longrightarrow> \<not> same_connection (edges g ! i) (edges g ! j)"
    using edges_distinct_connections by blast
  have f: "\<forall>u e. u < n g \<and> e \<in> set (out_edges u g) \<longrightarrow> (\<exists>e' \<in> set (edges g). same_connection e e')"
    using out_edges_covered by blast
  from a length_edges c d e f show ?thesis
    by blast
qed

theorem edges_enumeration_witness:
  "1 \<le> n (ring 5) \<and> num_edges (ring 5) = 5 \<and> length (edges (ring 5)) = 5 \<and>
   map fst (edges (ring 5)) = [0, 1, 2, 3, 4]"
proof -
  have h: "1 \<le> n (ring 5)"
    by (simp add: ring5_n)
  from edges_enumeration [OF h] have "num_edges (ring 5) = 5"
    and "length (edges (ring 5)) = unat (num_edges (ring 5))"
    and "map fst (edges (ring 5)) = take (unat (num_edges (ring 5))) (vertices (ring 5))"
    by (simp_all add: ring5_n)
  with h show ?thesis
    by (simp add: ring5_vertices)
qed

subsection \<open>Edge weights\<close>

text \<open>
  Claim C8 says that for every ring graph and every edge descriptor the weight read is
  exactly half the sum of source and target.  The sum is formed in \<open>std::size_t\<close>: on
  the ring of \<open>2 ^ 64 - 1\<close> vertices the first out-edge of vertex \<open>2 ^ 63\<close> leads to
  \<open>2 ^ 63 + 1\<close>, the sum wraps to 1 and the weight read is one half.
\<close>

theorem edge_weight_wraps_counterexample:
  "(2 ^ 63, 2 ^ 63 + 1) \<in> set (out_edges (2 ^ 63) (ring (- 1))) \<and>
   get_edge_weight (ring (- 1)) (2 ^ 63, 2 ^ 63 + 1) = 1 / 2 \<and>
   get_edge_weight (ring (- 1)) (2 ^ 63, 2 ^ 63 + 1)
     \<noteq> (of_nat (unat (2 ^ 63 :: size_t)) + of_nat (unat (2 ^ 63 + 1 :: size_t))) / 2"
proof -
  have s: "(2 ^ 63 :: size_t) + (2 ^ 63 + 1) = 1"
    by simp
  have w: "get_edge_weight (ring (- 1)) (2 ^ 63, 2 ^ 63 + 1) = 1 / 2"
    by (simp add: get_edge_weight_def edge_weight_map_def s double_of_nat_exact)
  have lt: "(2 ^ 63 :: size_t) < - 1"
    by simp
  have m: "(2 ^ 63, 2 ^ 63 + 1) \<in> set (out_edges (2 ^ 63) (ring (- 1)))"
    using lt by (simp add: out_edges_unfold n_def ring_def deref0 succ_mod)
  show ?thesis
    using w m by simp
qed

text \<open>
  Claim C8 as amended: whenever source plus target is below \<open>2 ^ 53\<close>, which holds for
  every edge of a ring of at most \<open>2 ^ 52\<close> vertices, the weight read is exactly half
  the sum of source and target; the weight depends on the descriptor alone, not on the
  graph or on earlier reads; and on the ring of five vertices the edges \<open>(0,1)\<close>,
  \<open>(1,2)\<close>, \<open>(2,3)\<close>, \<open>(3,4)\<close>, \<open>(4,0)\<close> weigh 0.5, 1.5, 2.5, 3.5 and 2.
\<close>

theorem edge_weight_exact:
  "(unat (source e g) + unat (target e g) < 2 ^ 53 \<longrightarrow>
      get_edge_weight g e = (of_nat (unat (source e g)) + of_nat (unat (target e g))) / 2) \<and>
   (n g \<le> 2 ^ 52 \<and> u < n g \<and> e \<in> set (out_edges u g) \<longrightarrow>
      get_edge_weight g e = (of_nat (unat (source e g)) + of_nat (unat (target e g))) / 2) \<and>
   get_edge_weight g e = get_edge_weight g' e \<and>
   edges (ring 5) = [(0, 1), (1, 2), (2, 3), (3, 4), (4, 0)] \<and>
   map (get_edge_weight (ring 5)) (edges (ring 5)) = [1 / 2, 3 / 2, 5 / 2, 7 / 2, 2]"
proof -
  have exact: "get_edge_weight g e = (of_nat (unat (source e g)) + of_nat (unat (target e g))) / 2"
    if "unat (source e g) + unat (target e g) < 2 ^ 53"
    using that by (simp add: get_edge_weight_def edge_weight_map_def source_def target_def
        unat_sum_exact double_of_nat_exact)
  have small: "unat (source e g) + unat (target e g) < 2 ^ 53"
    if "n g \<le> 2 ^ 52" "u < n g" "e \<in> set (out_edges u g)"
  proof -
    from target_bound [OF that(2,3)] that(2) have "fst e < n g" "snd e < n g"
      by simp_all
    with that(1) have "unat (fst e) < 2 ^ 52" "unat (snd e) < 2 ^ 52"
      by (simp_all add: word_less_nat_alt word_le_nat_alt)
    then show ?thesis
      by (simp add: source_def target_def)
  qed
  have pure: "get_edge_weight g e = get_edge_weight g' e"
    by (simp add: get_edge_weight_def)
  have five: "map (get_edge_weight (ring 5)) (edges (ring 5)) = [1 / 2, 3 / 2, 5 / 2, 7 / 2, 2]"
    by (simp add: ring5_edges ring5_weights)
  from exact small pure five ring5_edges show ?thesis
    by blast
qed

theorem edge_weight_exact_witness:
  "unat (source (3, 4) (ring 5)) + unat (target (3, 4) (ring 5)) < 2 ^ 53 \<and>
   n (ring 5) \<le> 2 ^ 52 \<and> 3 < n (ring 5) \<and> (3, 4) \<in> set (out_edges 3 (ring 5)) \<and>
   get_edge_weight (ring 5) (3, 4) = 7 / 2"
proof -
  have h: "unat (source (3, 4) (ring 5)) + unat (target (3, 4) (ring 5)) < 2 ^ 53"
    by (simp add: source_def target_def)
  have k: "n (ring 5) \<le> 2 ^ 52 \<and> 3 < n (ring 5) \<and> (3, 4) \<in> set (out_edges 3 (ring 5))"
    by (simp add: ring5_n ring5_out_edges)
  from edge_weight_exact [of "(3, 4)" "ring 5" 3] h k show ?thesis
    by (simp add: source_def target_def)
qed

subsection \<open>Sources of out-edges\<close>



subsection \<open>Dijkstra search from vertex 0\<close>

text \<open>
  Claim C6: on the ring of five vertices the search from vertex 0 ends with all
  vertices settled, the distances 0, 0.5, 2, 4.5, 2 and the predecessors 0, 0, 1, 2, 0.
\<close>

theorem dijkstra_ring5:
  "dijkstra_shortest_paths (ring 5) 0 =
     \<lparr>dist = [Some 0, Some (1 / 2), Some 2, Some (9 / 2), Some 2],
      pred = [Some 0, Some 0, Some 1, Some 2, Some 0],
      unsettled = []\<rparr>"
  by (simp add: dijkstra_shortest_paths_def ring5_num_vertices ring5_vertices ring5_out_edges
      ring5_weights relax_def source_def target_def dijkstra_rounds_step rep5)

section \<open>Properties of the parallel compilation ordering\<close>

lemma time_loop_other_slots:
  "time_loop g i make_order time = Inr t \<Longrightarrow> i = Some k \<Longrightarrow> j \<noteq> k \<Longrightarrow> t ! j = time ! j"
  by (induction make_order arbitrary: time) (auto split: if_splits simp: Let_def)

lemma time_loop_no_slot:
  "time_loop g None make_order time = Inr t \<Longrightarrow> t = time"
  by (induction make_order arbitrary: time) (auto split: if_splits simp: Let_def)

text \<open>
  Claim C2 says that the loop gives every vertex one more than the largest time of the
  sources of its in-edges, so that the time grows along every edge of the dependency
  graph, and that the slot written is that of the vertex itself.  The loop as written
  writes the slot \<open>time[*i]\<close> of an iterator that is never assigned.  Whatever
  dereferencing it does, and whatever order \<open>topological_sort\<close> produced: either the
  run faults, or all writes go to one slot and the times do not grow along the two edges
  from foo.cpp to foo.o and from foo.o to libfoobar.a.
\<close>

theorem parallel_times_not_levels:
  "(file_index foo_cpp, file_index foo_o) \<in> set used_by \<and>
   (file_index foo_o, file_index libfoobar_a) \<in> set used_by \<and>
   (case parallel_times i make_order of
      Inl f \<Rightarrow> True
    | Inr time \<Rightarrow> \<not> (time ! file_index foo_cpp < time ! file_index foo_o \<and>
                       time ! file_index foo_o < time ! file_index libfoobar_a))"
proof -
  have edges: "(file_index foo_cpp, file_index foo_o) \<in> set used_by"
    "(file_index foo_o, file_index libfoobar_a) \<in> set used_by"
    by (simp_all add: used_by_def)
  have "\<not> (t ! 4 < t ! 5 \<and> t ! 5 < t ! 8)" if r: "parallel_times i make_order = Inr t" for t
  proof (cases i)
    case None
    with r have "t = replicate N 0"
      unfolding parallel_times_def by (auto dest: time_loop_no_slot)
    then show ?thesis by (simp add: N_def)
  next
    case (Some k)
    with r have other: "t ! j = replicate N 0 ! j" if "j \<noteq> k" for j
      unfolding parallel_times_def using that time_loop_other_slots by blast
    show ?thesis
    proof (cases "k = 5")
      case True
      then have "t ! 8 = 0" using other [of 8] by (simp add: N_def)
      moreover from True have "t ! 4 = 0" using other [of 4] by (simp add: N_def)
      ultimately show ?thesis by auto
    next
      case False
      then have "t ! 5 = 0" using other [of 5] by (simp add: N_def)
      moreover have "t ! 4 = 0 \<or> t ! 8 = 0" using other [of 4] other [of 8] by (cases "k = 4") (simp_all add: N_def)
      ultimately show ?thesis by auto
    qed
  qed
  then show ?thesis using edges by (simp split: sum.splits)
qed

section \<open>Properties of the Kevin Bacon graph\<close>

subsection \<open>Reading the data file\<close>

lemma indexed_lookup:
  assumes "names_indexed g actors"
  shows "actors name = Some u \<longleftrightarrow> u < length (actor_name g) \<and> actor_name g ! u = name"
  using assms unfolding names_indexed_def by blast

lemma indexed_None:
  assumes "names_indexed g actors"
  shows "actors name = None \<longleftrightarrow> name \<notin> set (actor_name g)"
proof
  assume none: "actors name = None"
  show "name \<notin> set (actor_name g)"
  proof
    assume "name \<in> set (actor_name g)"
    then obtain k where "k < length (actor_name g)" "actor_name g ! k = name"
      by (auto simp: in_set_conv_nth)
    then have "actors name = Some k"
      using indexed_lookup [OF assms] by blast
    with none show False
      by simp
  qed
next
  assume notin: "name \<notin> set (actor_name g)"
  show "actors name = None"
  proof (cases "actors name")
    case (Some k)
    then have "k < length (actor_name g)" "actor_name g ! k = name"
      using indexed_lookup [OF assms] by blast+
    with notin show ?thesis
      by (auto simp: in_set_conv_nth)
  qed simp
qed

lemma insert_actor_cases:
  assumes "names_indexed g actors"
  shows "insert_actor name (g, actors) =
     (if name \<in> set (actor_name g) then (the (actors name), g, actors)
      else (length (actor_name g), g\<lparr>actor_name := actor_name g @ [name]\<rparr>,
            actors(name \<mapsto> length (actor_name g))))"
proof (cases "actors name")
  case None
  with indexed_None [OF assms] have "name \<notin> set (actor_name g)"
    by simp
  with None show ?thesis
    by (simp add: insert_actor_def add_vertex_def)
next
  case (Some u)
  with indexed_None [OF assms, of name] have "name \<in> set (actor_name g)"
    by simp
  with Some show ?thesis
    by (simp add: insert_actor_def)
qed

lemma insert_actor_indexed:
  assumes "names_indexed g actors" and "insert_actor name (g, actors) = (u, g', actors')"
  shows "names_indexed g' actors' \<and> u < length (actor_name g') \<and> actor_name g' ! u = name \<and>
         set (actor_name g') = insert name (set (actor_name g)) \<and>
         (\<exists>ext. actor_name g' = actor_name g @ ext) \<and>
         edge_ends g' = edge_ends g \<and> connecting_movie g' = connecting_movie g"
proof (cases "name \<in> set (actor_name g)")
  case True
  have "insert_actor name (g, actors) = (the (actors name), g, actors)"
    using True insert_actor_cases [OF assms(1), of name] by simp
  then have "(u, g', actors') = (the (actors name), g, actors)"
    unfolding assms(2) .
  then have eq: "u = the (actors name)" "g' = g" "actors' = actors"
    by simp_all
  from True indexed_None [OF assms(1), of name] obtain k where k: "actors name = Some k"
    by auto
  then have "k < length (actor_name g)" "actor_name g ! k = name"
    using indexed_lookup [OF assms(1)] by blast+
  with eq k assms(1) True show ?thesis
    by (auto simp: insert_absorb)
next
  case False
  have "insert_actor name (g, actors) = (length (actor_name g), g\<lparr>actor_name := actor_name g @ [name]\<rparr>,
            actors(name \<mapsto> length (actor_name g)))"
    using False insert_actor_cases [OF assms(1), of name] by simp
  then have "(u, g', actors') = (length (actor_name g), g\<lparr>actor_name := actor_name g @ [name]\<rparr>,
            actors(name \<mapsto> length (actor_name g)))"
    unfolding assms(2) .
  then have eq: "u = length (actor_name g)" "g' = g\<lparr>actor_name := actor_name g @ [name]\<rparr>"
     "actors' = actors(name \<mapsto> length (actor_name g))"
    by simp_all
  have look: "(actors' nm = Some k) = (k < length (actor_name g') \<and> actor_name g' ! k = nm)" for nm k
  proof (cases "nm = name")
    case True
    with False show ?thesis
      unfolding eq by (auto simp: nth_append less_Suc_eq in_set_conv_nth)
  next
    case neq: False
    then show ?thesis
      unfolding eq using indexed_lookup [OF assms(1), of nm k]
      by (auto simp: nth_append less_Suc_eq)
  qed
  have "distinct (actor_name g')"
    using assms(1) False unfolding eq names_indexed_def by simp
  with look have "names_indexed g' actors'"
    unfolding names_indexed_def by blast
  with eq show ?thesis
    by auto
qed

lemma edge_records_extend:
  assumes "well_formed g" and "actor_name g' = actor_name g @ ext"
    and "edge_ends g' = edge_ends g" and "connecting_movie g' = connecting_movie g"
  shows "edge_records g' = edge_records g \<and> well_formed g'"
proof -
  have "\<forall>e \<in> set (edge_ends g). fst e < length (actor_name g) \<and> snd e < length (actor_name g)"
    using assms(1) by (auto simp: well_formed_def list_all_iff graph_num_vertices_def)
  moreover have "\<forall>p \<in> set (zip (edge_ends g) (connecting_movie g)). fst p \<in> set (edge_ends g)"
    by (auto dest: set_zip_leftD)
  ultimately have "\<forall>p \<in> set (zip (edge_ends g) (connecting_movie g)).
      fst (fst p) < length (actor_name g) \<and> snd (fst p) < length (actor_name g)"
    by blast
  then have "edge_records g' = edge_records g"
    unfolding edge_records_def assms by (auto simp: nth_append)
  moreover have "well_formed g'"
    using assms(1) unfolding well_formed_def graph_num_vertices_def assms list_all_iff by auto
  ultimately show ?thesis
    by simp
qed

lemma read_line_reflects:
  assumes "reflects datafile ga"
  shows "reflects (datafile @ [line]) (read_line ga line)"
proof -
  obtain g actors where ga: "ga = (g, actors)"
    by (cases ga)
  obtain a m b where line: "line = (a, m, b)"
    by (cases line)
  from assms have ni: "names_indexed g actors"
    and names: "set (actor_name g) = set (names_of datafile)"
    and wf: "well_formed g"
    and len: "length (connecting_movie g) = length (edge_ends g)"
    and recs: "edge_records g = datafile"
    by (simp_all add: reflects_def ga names_indexed_def graph_num_vertices_def)
  obtain u g1 actors1 where i1: "insert_actor a (g, actors) = (u, g1, actors1)"
    by (cases "insert_actor a (g, actors)")
  obtain v g2 actors2 where i2: "insert_actor b (g1, actors1) = (v, g2, actors2)"
    by (cases "insert_actor b (g1, actors1)")
  note p1 = insert_actor_indexed [OF ni i1]
  then have ni1: "names_indexed g1 actors1"
    by simp
  note p2 = insert_actor_indexed [OF ni1 i2]
  from p1 obtain ext1 where ext1: "actor_name g1 = actor_name g @ ext1"
    by blast
  from p2 obtain ext2 where ext2: "actor_name g2 = actor_name g1 @ ext2"
    by blast
  from p1 p2 have ends: "edge_ends g2 = edge_ends g" and movies: "connecting_movie g2 = connecting_movie g"
    by simp_all
  have ext: "actor_name g2 = actor_name g @ (ext1 @ ext2)"
    by (simp add: ext1 ext2)
  from edge_records_extend [OF wf ext ends movies]
  have recs2: "edge_records g2 = datafile" and wf2: "well_formed g2"
    by (simp_all add: recs)
  from p1 p2 have u: "u < length (actor_name g2)" "actor_name g2 ! u = a"
    by (auto simp: ext2 nth_append)
  from p2 have v: "v < length (actor_name g2)" "actor_name g2 ! v = b"
    by simp_all
  define g3 where "g3 = g2\<lparr>edge_ends := edge_ends g2 @ [(u, v)],
     connecting_movie := connecting_movie g2 @ [m]\<rparr>"
  have rl: "read_line ga line = (g3, actors2)"
    by (simp add: read_line_def ga line i1 i2 add_edge_def g3_def ends movies len [symmetric])
  have "edge_records g3 = edge_records g2 @ [(a, m, b)]"
    using u v by (simp add: edge_records_def g3_def ends movies len)
  then have r3: "edge_records g3 = datafile @ [line]"
    by (simp add: recs2 line)
  have wf3: "well_formed g3"
    using wf2 u v by (simp add: well_formed_def g3_def graph_num_vertices_def)
  have n3: "set (actor_name g3) = set (names_of (datafile @ [line]))"
    using p1 p2 names by (auto simp: g3_def names_of_def line)
  have ni3: "names_indexed g3 actors2"
    using p2 by (simp add: names_indexed_def g3_def)
  have l3: "length (connecting_movie g3) = length (edge_ends g3)"
    by (simp add: g3_def ends movies len)
  from r3 wf3 n3 ni3 l3 show ?thesis
    unfolding rl reflects_def names_indexed_def graph_num_vertices_def by simp
qed

lemma foldl_read_line_reflects:
  "reflects pre ga \<Longrightarrow> reflects (pre @ datafile) (foldl read_line ga datafile)"
proof (induction datafile arbitrary: pre ga)
  case Nil
  then show ?case by simp
next
  case (Cons line rest)
  from Cons.IH [OF read_line_reflects [OF Cons.prems, of line]] show ?case
    by simp
qed

lemma build_reflects: "reflects datafile (build datafile)"
proof -
  have "reflects [] (empty_graph, Map.empty)"
    by (simp add: reflects_def empty_graph_def names_of_def well_formed_def edge_records_def
        graph_num_vertices_def)
  from foldl_read_line_reflects [OF this, of datafile] show ?thesis
    by (simp add: build_def)
qed

lemma build_well_formed: "well_formed (fst (build datafile))"
  using build_reflects [of datafile] by (cases "build datafile") (simp add: reflects_def)

text \<open>
  Claim C9 says that the reading loop makes one vertex per name and one edge per pair of
  co-appearing actors, so that no two edges join the same two vertices.  Two lines with
  the same pair of actors give two edges between the same two vertices.
\<close>

theorem parallel_edges_counterexample:
  "edge_ends (fst (build [(''Kevin Bacon'', ''M1'', ''A''), (''Kevin Bacon'', ''M4'', ''A'')]))
     = [(0, 1), (0, 1)] \<and>
   \<not> distinct (edge_ends (fst (build [(''Kevin Bacon'', ''M1'', ''A''), (''Kevin Bacon'', ''M4'', ''A'')])))"
  by code_simp

text \<open>
  Claim C9 as amended: the vertex names are pairwise different and are exactly the names
  of the file; the name map sends a name to the one vertex that carries it; and there
  is exactly one edge per line of the file: read back through the vertex names and the
  movie names, the edges are the lines of the file, in order.
\<close>

theorem build_vertices_and_edges:
  "case build datafile of (g, actors) \<Rightarrow>
     distinct (actor_name g) \<and> set (actor_name g) = set (names_of datafile) \<and>
     (\<forall>name u. actors name = Some u \<longleftrightarrow> u < graph_num_vertices g \<and> actor_name g ! u = name) \<and>
     length (edge_ends g) = length datafile \<and> length (connecting_movie g) = length datafile \<and>
     edge_records g = datafile"
proof -
  obtain g actors where b: "build datafile = (g, actors)"
    by (cases "build datafile")
  from build_reflects [of datafile] have r: "distinct (actor_name g)"
    "set (actor_name g) = set (names_of datafile)"
    "\<forall>name u. actors name = Some u \<longleftrightarrow> u < graph_num_vertices g \<and> actor_name g ! u = name"
    "length (connecting_movie g) = length (edge_ends g)" "edge_records g = datafile"
    unfolding b reflects_def by simp_all
  have "length (edge_records g) = length (edge_ends g)"
    using r(4) by (simp add: edge_records_def)
  with r show ?thesis
    unfolding b by simp
qed

subsection \<open>The search\<close>

lemma sint_succ:
  assumes "sint (x :: int32) < 2 ^ 31 - 1"
  shows "sint (x + 1) = sint x + 1"
proof -
  have lo: "- (2 ^ 31) \<le> sint x"
    using sint_ge [of x] by simp
  have "sint (x + 1) = signed_take_bit 31 (sint x + sint (1 :: int32))"
    by (simp add: sint_word_ariths)
  also have "\<dots> = signed_take_bit 31 (sint x + 1)"
    by simp
  also have "\<dots> = sint x + 1"
    by (rule signed_take_bit_int_eq_self) (use lo assms in simp_all)
  finally show ?thesis .
qed

lemma sorted_map_le_last:
  fixes f :: "'a \<Rightarrow> int"
  shows "sorted (map f xs) \<Longrightarrow> x \<in> set xs \<Longrightarrow> f x \<le> f (last xs)"
  by (induction xs) auto

lemma bfs_inv_seen:
  assumes "bfs_inv g s d0 D d L (u # q)" and "D w"
  shows "d w \<le> d u + 1"
proof (cases "w \<in> set (u # q)")
  case True
  from assms(1) have srt: "sorted (map d (u # q))" and lst: "d (last (u # q)) \<le> d u + 1"
    by (simp_all add: bfs_inv_def)
  from True srt have "d w \<le> d (last (u # q))"
    by (rule sorted_map_le_last [rotated])
  with lst show ?thesis by simp
next
  case False
  with assms have "d w \<le> d u"
    unfolding bfs_inv_def by (metis list.set_intros(1))
  then show ?thesis by simp
qed

lemma bfs_inv_discover:
  assumes inv: "bfs_inv g s d0 D d L (u # q)"
    and j: "joined g u w" and w: "w < graph_num_vertices g" and nd: "\<not> D w"
  shows "bfs_inv g s d0 (D(w := True)) (d(w := d u + 1)) (L @ [(u, w)]) ((u # q) @ [w])"
proof -
  let ?D = "D(w := True)" and ?d = "d(w := d u + 1)" and ?vq = "u # q"
  from inv have dist: "distinct ?vq" and qD: "\<forall>x \<in> set ?vq. D x" and bound: "\<forall>v. D v \<longrightarrow> v < graph_num_vertices g"
    and src: "D s" "d s = 0" and path: "\<forall>v. D v \<longrightarrow> 0 \<le> d v \<and> hops g s v (nat (d v))"
    and srt: "sorted (map d ?vq)" and lst: "d (last ?vq) \<le> d u + 1"
    and fin: "\<forall>x. D x \<and> x \<notin> set ?vq \<longrightarrow>
        (\<forall>x' \<in> set ?vq. d x \<le> d x') \<and> (\<forall>w. joined g x w \<longrightarrow> D w \<and> d w \<le> d x + 1)"
    and ev: "distinct (map snd L)" "snd ` set L = {v. D v} - {s}"
      "\<forall>e \<in> set L. D (fst e) \<and> joined g (fst e) (snd e) \<and> d (snd e) = d (fst e) + 1"
    and unset: "\<forall>v < graph_num_vertices g. \<not> D v \<longrightarrow> d v = d0 ! v"
    and small: "\<forall>v. D v \<longrightarrow> d v < int (card {x. D x})"
    unfolding bfs_inv_def by simp_all
  from qD nd have wq: "w \<notin> set ?vq" by blast
  from qD have Du: "D u" by simp
  with nd have uw: "u \<noteq> w" by blast
  from src nd have sw: "s \<noteq> w" by blast
  have same: "?d x = d x" if "D x" for x
    using that nd by auto
  have c1: "distinct (?vq @ [w])"
    using dist wq by simp
  have c2: "\<forall>x \<in> set (?vq @ [w]). ?D x"
    using qD by simp
  have c3: "\<forall>v. ?D v \<longrightarrow> v < graph_num_vertices g"
    using bound w by simp
  have c4: "?D s" "?d s = 0"
    using src sw by simp_all
  have hw: "hops g s w (nat (d u + 1))"
  proof -
    from path Du have "0 \<le> d u" "hops g s u (nat (d u))" by simp_all
    then have "hops g s w (Suc (nat (d u)))" using j by (auto intro: hops_edge)
    with \<open>0 \<le> d u\<close> show ?thesis by (simp add: nat_add_distrib)
  qed
  have c5: "\<forall>v. ?D v \<longrightarrow> 0 \<le> ?d v \<and> hops g s v (nat (?d v))"
    using path Du hw by auto
  have le_last: "d x \<le> d u + 1" if "x \<in> set ?vq" for x
    using bfs_inv_seen [OF inv] qD that by blast
  have c6: "sorted (map ?d (?vq @ [w]))"
  proof -
    have "map ?d ?vq = map d ?vq"
    proof (rule map_cong [OF refl])
      fix x assume "x \<in> set ?vq"
      with qD have "D x" by blast
      with nd have "x \<noteq> w" by blast
      then show "?d x = d x" by simp
    qed
    then have "map ?d (?vq @ [w]) = map d ?vq @ [d u + 1]"
      by (simp only: map_append list.map fun_upd_same)
    moreover have "sorted (map d ?vq @ [d u + 1])"
      using srt le_last unfolding sorted_append by auto
    ultimately show ?thesis
      by (simp only:)
  qed
  have c7: "?vq @ [w] \<noteq> [] \<longrightarrow> ?d (last (?vq @ [w])) \<le> ?d (hd (?vq @ [w])) + 1"
    using uw by simp
  have c8: "\<forall>x. ?D x \<and> x \<notin> set (?vq @ [w]) \<longrightarrow>
        (\<forall>x' \<in> set (?vq @ [w]). ?d x \<le> ?d x') \<and> (\<forall>w'. joined g x w' \<longrightarrow> ?D w' \<and> ?d w' \<le> ?d x + 1)"
  proof (intro allI impI)
    fix x assume x: "?D x \<and> x \<notin> set (?vq @ [w])"
    then have Dx: "D x" and xq: "x \<notin> set ?vq" and xw: "x \<noteq> w" by auto
    from fin Dx xq have a: "\<forall>x' \<in> set ?vq. d x \<le> d x'" and b: "\<forall>w'. joined g x w' \<longrightarrow> D w' \<and> d w' \<le> d x + 1"
      by blast+
    from a have "d x \<le> d u" by simp
    with a qD nd xw have a': "\<forall>x' \<in> set (?vq @ [w]). ?d x \<le> ?d x'"
      by auto
    from b nd xw have b': "\<forall>w'. joined g x w' \<longrightarrow> ?D w' \<and> ?d w' \<le> ?d x + 1"
      by auto
    from a' b' show "(\<forall>x' \<in> set (?vq @ [w]). ?d x \<le> ?d x') \<and> (\<forall>w'. joined g x w' \<longrightarrow> ?D w' \<and> ?d w' \<le> ?d x + 1)"
      by blast
  qed
  have wL: "w \<notin> snd ` set L"
    using ev(2) nd by auto
  have c9: "distinct (map snd (L @ [(u, w)]))"
    using ev(1) wL by simp
  have c10: "snd ` set (L @ [(u, w)]) = {v. ?D v} - {s}"
    using ev(2) sw by auto
  have c11: "\<forall>e \<in> set (L @ [(u, w)]). ?D (fst e) \<and> joined g (fst e) (snd e) \<and> ?d (snd e) = ?d (fst e) + 1"
  proof
    fix e assume "e \<in> set (L @ [(u, w)])"
    then consider "e \<in> set L" | "e = (u, w)" by auto
    then show "?D (fst e) \<and> joined g (fst e) (snd e) \<and> ?d (snd e) = ?d (fst e) + 1"
    proof cases
      case 1
      with ev(3) have e: "D (fst e)" "joined g (fst e) (snd e)" "d (snd e) = d (fst e) + 1" by auto
      from 1 ev(2) have "D (snd e)" by auto
      with e nd show ?thesis by auto
    next
      case 2
      with j uw Du show ?thesis by simp
    qed
  qed
  have c12: "\<forall>v < graph_num_vertices g. \<not> ?D v \<longrightarrow> ?d v = d0 ! v"
    using unset by auto
  from bound have "{x. D x} \<subseteq> {..<graph_num_vertices g}"
    by auto
  then have finD: "finite {x. D x}"
    by (rule finite_subset) simp
  have "{x. ?D x} = insert w {x. D x}"
    by auto
  with finD nd have card': "card {x. ?D x} = Suc (card {x. D x})"
    by simp
  have c13: "\<forall>v. ?D v \<longrightarrow> ?d v < int (card {x. ?D x})"
  proof (intro allI impI)
    fix v assume v: "?D v"
    show "?d v < int (card {x. ?D x})"
    proof (cases "v = w")
      case True
      with small Du show ?thesis
        unfolding card' by simp
    next
      case False
      with v small have "d v < int (card {x. D x})"
        by simp
      with False show ?thesis
        unfolding card' by simp
    qed
  qed
  show ?thesis
    unfolding bfs_inv_def
    by (intro conjI) (fact c1 c2 c3 c4 c5 c6 c7 c8 c9 c10 c11 c12 c13)+
qed

lemma bfs_inv_finish:
  assumes inv: "bfs_inv g s d0 D d L (u # q)"
    and nb: "\<forall>w. joined g u w \<longrightarrow> D w \<and> d w \<le> d u + 1"
  shows "bfs_inv g s d0 D d L q"
proof -
  let ?vq = "u # q"
  from inv have dist: "distinct ?vq" and qD: "\<forall>x \<in> set ?vq. D x"
    and srt: "sorted (map d ?vq)" and lst: "d (last ?vq) \<le> d u + 1"
    and fin: "\<forall>x. D x \<and> x \<notin> set ?vq \<longrightarrow>
        (\<forall>x' \<in> set ?vq. d x \<le> d x') \<and> (\<forall>w. joined g x w \<longrightarrow> D w \<and> d w \<le> d x + 1)"
    unfolding bfs_inv_def by simp_all
  have c1: "distinct q" "\<forall>x \<in> set q. D x" "sorted (map d q)"
    using dist qD srt by simp_all
  have c2: "q \<noteq> [] \<longrightarrow> d (last q) \<le> d (hd q) + 1"
  proof
    assume ne: "q \<noteq> []"
    then have "hd q \<in> set q" by simp
    with srt have "d u \<le> d (hd q)" by simp
    with lst ne show "d (last q) \<le> d (hd q) + 1" by simp
  qed
  have c3: "\<forall>x. D x \<and> x \<notin> set q \<longrightarrow>
        (\<forall>x' \<in> set q. d x \<le> d x') \<and> (\<forall>w. joined g x w \<longrightarrow> D w \<and> d w \<le> d x + 1)"
  proof (intro allI impI)
    fix x assume x: "D x \<and> x \<notin> set q"
    show "(\<forall>x' \<in> set q. d x \<le> d x') \<and> (\<forall>w. joined g x w \<longrightarrow> D w \<and> d w \<le> d x + 1)"
    proof (cases "x = u")
      case True
      with srt nb show ?thesis by simp
    next
      case False
      with x have "D x \<and> x \<notin> set ?vq" by simp
      with fin have "(\<forall>x' \<in> set ?vq. d x \<le> d x') \<and> (\<forall>w. joined g x w \<longrightarrow> D w \<and> d w \<le> d x + 1)"
        by blast
      then show ?thesis by simp
    qed
  qed
  from inv have rest: "\<forall>v. D v \<longrightarrow> v < graph_num_vertices g" "D s" "d s = 0"
    "\<forall>v. D v \<longrightarrow> 0 \<le> d v \<and> hops g s v (nat (d v))"
    "distinct (map snd L)" "snd ` set L = {v. D v} - {s}"
    "\<forall>e \<in> set L. D (fst e) \<and> joined g (fst e) (snd e) \<and> d (snd e) = d (fst e) + 1"
    "\<forall>v < graph_num_vertices g. \<not> D v \<longrightarrow> d v = d0 ! v"
    "\<forall>v. D v \<longrightarrow> d v < int (card {x. D x})"
    unfolding bfs_inv_def by simp_all
  show ?thesis
    unfolding bfs_inv_def
    by (intro conjI) (fact c1 c2 c3 rest)+
qed

lemma bfs_inv_final:
  assumes inv: "bfs_inv g s d0 D d L []" and h: "hops g s v k"
  shows "D v \<and> d v \<le> int k"
  using h
proof (induction rule: hops.induct)
  case hops_source
  from inv show ?case by (simp add: bfs_inv_def)
next
  case (hops_edge u k v)
  from inv have "\<forall>x. D x \<longrightarrow> (\<forall>w. joined g x w \<longrightarrow> D w \<and> d w \<le> d x + 1)"
    unfolding bfs_inv_def by simp
  with hops_edge.IH hops_edge.hyps(2) have "D v \<and> d v \<le> d u + 1"
    by blast
  with hops_edge.IH show ?case by simp
qed

lemma out_edges_joined:
  "e \<in> set (graph_out_edges u g) \<Longrightarrow> fst e = u \<and> joined g u (snd e)"
  by (auto simp: graph_out_edges_def joined_def split: if_splits)

lemma joined_out_edges:
  "joined g u v \<Longrightarrow> (u, v) \<in> set (graph_out_edges u g)"
  by (force simp: graph_out_edges_def joined_def)

lemma joined_bound:
  "well_formed g \<Longrightarrow> joined g u v \<Longrightarrow> u < graph_num_vertices g \<and> v < graph_num_vertices g"
  by (auto simp: well_formed_def joined_def list_all_iff)

lemma examine_edge_step:
  assumes wf: "well_formed g" and fits: "graph_num_vertices g \<le> 2 ^ 31"
    and ex: "examining g s d0 (u # queue st) st"
    and e: "e \<in> set (graph_out_edges u g)"
  defines "st' \<equiv> examine_edge g st e"
  shows "examining g s d0 (u # queue st') st' \<and>
    (\<forall>x. dsc st x \<longrightarrow> dsc st' x \<and> dv st' x = dv st x) \<and>
    (dsc st' (snd e) \<and> dv st' (snd e) \<le> dv st' u + 1) \<and>
    pending g st' = pending g st"
proof -
  let ?N = "graph_num_vertices g"
  obtain w where ew: "e = (u, w)" and j: "joined g u w"
    using out_edges_joined [OF e] by (cases e) auto
  from joined_bound [OF wf j] have w: "w < ?N"
    by simp
  from ex have lens: "length (discovered st) = ?N" "length (bacon_number st) = ?N"
    and inv: "bfs_inv g s (map sint d0) (dsc st) (dv st) (tree_edge_events st) (u # queue st)"
    by (simp_all add: examining_def)
  from inv have Du: "dsc st u"
    by (simp add: bfs_inv_def)
  show ?thesis
  proof (cases "dsc st w")
    case True
    then have same: "st' = st"
      by (simp add: st'_def examine_edge_def ew dsc_def)
    from bfs_inv_seen [OF inv True] have "dv st w \<le> dv st u + 1" .
    with True ex show ?thesis
      by (simp add: same ew)
  next
    case False
    with w lens have nd: "\<not> discovered st ! w"
      by (simp add: dsc_def)
    then have st': "st' = st\<lparr>bacon_number := (bacon_number st)[w := bacon_number st ! u + 1],
                 tree_edge_events := tree_edge_events st @ [(u, w)],
                 discovered := (discovered st)[w := True],
                 queue := queue st @ [w]\<rparr>"
      by (simp add: st'_def examine_edge_def ew tree_edge_def)
    have D': "dsc st' = (dsc st)(w := True)"
      using w lens by (auto simp: st' dsc_def fun_eq_iff nth_list_update)
    from inv have "\<forall>v. dsc st v \<longrightarrow> v < ?N" and "\<forall>v. dsc st v \<longrightarrow> dv st v < int (card {x. dsc st x})"
      by (simp_all add: bfs_inv_def)
    with Du False have sub: "{x. dsc st x} \<subseteq> {..<?N} - {w}" and below: "dv st u < int (card {x. dsc st x})"
      by auto
    have "card {x. dsc st x} \<le> card ({..<?N} - {w})"
      using sub by (rule card_mono [rotated]) simp
    also have "\<dots> = ?N - 1"
      using w by simp
    finally have "int (card {x. dsc st x}) \<le> int ?N - 1"
      using w by simp
    moreover from fits have "int ?N \<le> 2 ^ 31"
      by (metis of_nat_le_iff of_nat_numeral of_nat_power)
    ultimately have "sint (bacon_number st ! u) < 2 ^ 31 - 1"
      using below by (simp add: dv_def)
    then have next_distance: "sint (bacon_number st ! u + 1) = dv st u + 1"
      unfolding dv_def by (rule sint_succ)
    have d': "dv st' = (dv st)(w := dv st u + 1)"
      using w lens next_distance by (auto simp: st' dv_def fun_eq_iff nth_list_update)
    have L': "tree_edge_events st' = tree_edge_events st @ [(u, w)]"
      and Q': "u # queue st' = (u # queue st) @ [w]"
      and lens': "length (discovered st') = ?N" "length (bacon_number st') = ?N"
      using lens by (simp_all add: st')
    from bfs_inv_discover [OF inv j w False]
    have a: "examining g s d0 (u # queue st') st'"
      unfolding examining_def D' d' L' Q' using lens' by simp
    from False have b: "\<forall>x. dsc st x \<longrightarrow> dsc st' x \<and> dv st' x = dv st x"
      unfolding D' d' by auto
    from False Du have "u \<noteq> w"
      by auto
    then have c: "dsc st' (snd e) \<and> dv st' (snd e) \<le> dv st' u + 1"
      unfolding D' d' by (simp add: ew)
    have fin: "finite {v. v < ?N \<and> \<not> dsc st v}"
      by simp
    have diff: "{v. v < ?N \<and> \<not> dsc st' v} = {v. v < ?N \<and> \<not> dsc st v} - {w}"
      unfolding D' by auto
    have "w \<in> {v. v < ?N \<and> \<not> dsc st v}"
      using w False by simp
    with fin have "Suc (card ({v. v < ?N \<and> \<not> dsc st v} - {w})) = card {v. v < ?N \<and> \<not> dsc st v}"
      by (rule card_Suc_Diff1)
    then have "card {v. v < ?N \<and> \<not> dsc st' v} + 1 = card {v. v < ?N \<and> \<not> dsc st v}"
      unfolding diff by simp
    moreover have "length (queue st') = length (queue st) + 1"
      by (simp add: st')
    ultimately have d: "pending g st' = pending g st"
      by (simp add: pending_def)
    from a b c d show ?thesis
      by blast
  qed
qed

lemma examine_edges_fold:
  assumes wf: "well_formed g" and fits: "graph_num_vertices g \<le> 2 ^ 31"
  shows "examining g s d0 (u # queue st) st \<Longrightarrow> set es \<subseteq> set (graph_out_edges u g) \<Longrightarrow>
    examining g s d0 (u # queue (foldl (examine_edge g) st es)) (foldl (examine_edge g) st es) \<and>
    (\<forall>x. dsc st x \<longrightarrow> dsc (foldl (examine_edge g) st es) x \<and> dv (foldl (examine_edge g) st es) x = dv st x) \<and>
    (\<forall>e \<in> set es. dsc (foldl (examine_edge g) st es) (snd e) \<and>
        dv (foldl (examine_edge g) st es) (snd e) \<le> dv (foldl (examine_edge g) st es) u + 1) \<and>
    pending g (foldl (examine_edge g) st es) = pending g st"
proof (induction es arbitrary: st)
  case Nil
  then show ?case by simp
next
  case (Cons e es)
  let ?st1 = "examine_edge g st e" and ?st2 = "foldl (examine_edge g) (examine_edge g st e) es"
  from Cons.prems have e: "e \<in> set (graph_out_edges u g)" and es: "set es \<subseteq> set (graph_out_edges u g)"
    by simp_all
  note s1 = examine_edge_step [OF wf fits Cons.prems(1) e]
  then have ex1: "examining g s d0 (u # queue ?st1) ?st1"
    by simp
  note s2 = Cons.IH [OF ex1 es]
  from Cons.prems(1) have Du: "dsc st u"
    by (simp add: examining_def bfs_inv_def)
  have frame: "\<forall>x. dsc st x \<longrightarrow> dsc ?st2 x \<and> dv ?st2 x = dv st x"
    using s1 s2 by simp
  have Du1: "dsc ?st1 u"
    using s1 Du by simp
  have "dsc ?st2 (snd e) \<and> dv ?st2 (snd e) \<le> dv ?st2 u + 1"
  proof -
    from s1 have t1: "dsc ?st1 (snd e)" "dv ?st1 (snd e) \<le> dv ?st1 u + 1"
      by simp_all
    from s2 t1(1) Du1 have "dsc ?st2 (snd e)" "dv ?st2 (snd e) = dv ?st1 (snd e)" "dv ?st2 u = dv ?st1 u"
      by simp_all
    with t1 show ?thesis
      by simp
  qed
  with s1 s2 frame show ?case
    by simp
qed

lemma bfs_loop_finishes:
  assumes wf: "well_formed g" and fits: "graph_num_vertices g \<le> 2 ^ 31"
  shows "examining g s d0 (queue st) st \<Longrightarrow> pending g st \<le> k \<Longrightarrow>
    \<exists>st'. bfs_loop g k st = Some st' \<and> examining g s d0 [] st'"
proof (induction k arbitrary: st)
  case 0
  then have "queue st = []"
    by (simp add: pending_def)
  with 0 show ?case
    by simp
next
  case (Suc k)
  show ?case
  proof (cases "queue st")
    case Nil
    with Suc.prems show ?thesis
      by simp
  next
    case (Cons u q)
    let ?st0 = "st\<lparr>queue := q\<rparr>"
    let ?st1 = "foldl (examine_edge g) ?st0 (graph_out_edges u g)"
    have same: "dsc ?st0 = dsc st" "dv ?st0 = dv st"
      by (simp_all add: dsc_def dv_def fun_eq_iff)
    from Suc.prems(1) have ex0: "examining g s d0 (u # queue ?st0) ?st0"
      by (simp add: examining_def Cons same)
    have p0: "pending g ?st0 + 1 = pending g st"
      by (simp add: pending_def Cons same)
    from examine_edges_fold [OF wf fits ex0 subset_refl]
    have ex1: "examining g s d0 (u # queue ?st1) ?st1"
      and tgt: "\<forall>e \<in> set (graph_out_edges u g). dsc ?st1 (snd e) \<and> dv ?st1 (snd e) \<le> dv ?st1 u + 1"
      and p1: "pending g ?st1 = pending g ?st0"
      by blast+
    have "\<forall>w. joined g u w \<longrightarrow> dsc ?st1 w \<and> dv ?st1 w \<le> dv ?st1 u + 1"
    proof (intro allI impI)
      fix w assume "joined g u w"
      then have "(u, w) \<in> set (graph_out_edges u g)"
        by (rule joined_out_edges)
      with tgt show "dsc ?st1 w \<and> dv ?st1 w \<le> dv ?st1 u + 1"
        by force
    qed
    with ex1 have ex2: "examining g s d0 (queue ?st1) ?st1"
      unfolding examining_def using bfs_inv_finish by blast
    from p0 p1 Suc.prems(2) have "pending g ?st1 \<le> k"
      by simp
    from Suc.IH [OF ex2 this] show ?thesis
      by (simp add: Cons)
  qed
qed

lemma bfs_loop_queue_empty:
  "bfs_loop g k st = Some st' \<Longrightarrow> queue st' = []"
  by (induction k arbitrary: st) (auto split: if_splits list.splits)

lemma filter_singleton:
  "distinct (map f xs) \<Longrightarrow> y \<in> f ` set xs \<Longrightarrow>
     \<exists>x. filter (\<lambda>e. f e = y) xs = [x] \<and> x \<in> set xs \<and> f x = y"
proof (induction xs)
  case Nil
  then show ?case by simp
next
  case (Cons a xs)
  show ?case
  proof (cases "f a = y")
    case True
    from Cons.prems(1) have "f a \<notin> f ` set xs"
      by simp
    with True have "\<forall>e \<in> set xs. f e \<noteq> y"
      by blast
    then have "filter (\<lambda>e. f e = y) xs = []"
      by (simp add: filter_empty_conv)
    with True show ?thesis
      by simp
  next
    case False
    with Cons.prems have "distinct (map f xs)" "y \<in> f ` set xs"
      by auto
    from Cons.IH [OF this] False show ?thesis
      by auto
  qed
qed

lemma bfs_correct:
  assumes wf: "well_formed g" and fits: "graph_num_vertices g \<le> 2 ^ 31"
    and s: "s < graph_num_vertices g"
    and d0: "length d0 = graph_num_vertices g" "d0 ! s = 0"
  shows "\<exists>st. breadth_first_search g s d0 = Some st \<and> queue st = [] \<and> bfs_postcondition g s d0 st"
proof -
  let ?N = "graph_num_vertices g"
  let ?init = "\<lparr>queue = [s], discovered = (replicate ?N False)[s := True],
        bacon_number = d0, tree_edge_events = []\<rparr>"
  have D0: "dsc ?init = (\<lambda>v. v = s)"
    using s by (auto simp: dsc_def fun_eq_iff nth_list_update)
  have "bfs_inv g s (map sint d0) (dsc ?init) (dv ?init) [] [s]"
    unfolding D0 bfs_inv_def using s d0 by (auto simp: dv_def intro: hops_source)
  then have ex: "examining g s d0 (queue ?init) ?init"
    using d0 by (simp add: examining_def)
  have "{v. v < ?N \<and> \<not> dsc ?init v} = {..<?N} - {s}"
    unfolding D0 by auto
  then have "card {v. v < ?N \<and> \<not> dsc ?init v} = ?N - 1"
    using s by simp
  then have "pending g ?init \<le> ?N"
    using s by (simp add: pending_def)
  from bfs_loop_finishes [OF wf fits ex this] obtain st where
    run: "bfs_loop g ?N ?init = Some st" and fin: "examining g s d0 [] st"
    by blast
  from fin have inv: "bfs_inv g s (map sint d0) (dsc st) (dv st) (tree_edge_events st) []"
    by (simp add: examining_def)
  let ?L = "tree_edge_events st"
  from inv have path: "\<forall>v. dsc st v \<longrightarrow> 0 \<le> dv st v \<and> hops g s v (nat (dv st v))"
    and ev: "distinct (map snd ?L)" "snd ` set ?L = {v. dsc st v} - {s}"
      "\<forall>e \<in> set ?L. dsc st (fst e) \<and> joined g (fst e) (snd e) \<and> dv st (snd e) = dv st (fst e) + 1"
    and unset: "\<forall>v < ?N. \<not> dsc st v \<longrightarrow> dv st v = map sint d0 ! v"
    unfolding bfs_inv_def by simp_all
  have none: "filter (\<lambda>e. snd e = v) ?L = []" if "v \<notin> snd ` set ?L" for v
    using that by (auto simp: filter_empty_conv)
  have post: "bfs_postcondition g s d0 st"
    unfolding bfs_postcondition_def
  proof (intro allI impI)
    fix v assume v: "v < ?N"
    show "if \<exists>k. hops g s v k
        then 0 \<le> sint (bacon_number st ! v) \<and>
             hops g s v (nat (sint (bacon_number st ! v))) \<and>
             (\<forall>k. hops g s v k \<longrightarrow> sint (bacon_number st ! v) \<le> int k) \<and>
             (if v = s then filter (\<lambda>e. snd e = v) ?L = []
              else \<exists>u. filter (\<lambda>e. snd e = v) ?L = [(u, v)] \<and> joined g u v \<and>
                     sint (bacon_number st ! v) = sint (bacon_number st ! u) + 1)
        else bacon_number st ! v = d0 ! v \<and> filter (\<lambda>e. snd e = v) ?L = []"
    proof (cases "\<exists>k. hops g s v k")
      case True
      then obtain k where "hops g s v k"
        by blast
      from bfs_inv_final [OF inv this] have Dv: "dsc st v"
        by simp
      with path have a: "0 \<le> dv st v" "hops g s v (nat (dv st v))"
        by simp_all
      have b: "\<forall>k. hops g s v k \<longrightarrow> dv st v \<le> int k"
        using bfs_inv_final [OF inv] by blast
      have c: "if v = s then filter (\<lambda>e. snd e = v) ?L = []
              else \<exists>u. filter (\<lambda>e. snd e = v) ?L = [(u, v)] \<and> joined g u v \<and> dv st v = dv st u + 1"
      proof (cases "v = s")
        case True
        with ev(2) have "v \<notin> snd ` set ?L"
          by simp
        with True none show ?thesis
          by simp
      next
        case False
        with Dv ev(2) have "v \<in> snd ` set ?L"
          by simp
        from filter_singleton [OF ev(1) this] obtain e where
          e: "filter (\<lambda>e. snd e = v) ?L = [e]" "e \<in> set ?L" "snd e = v"
          by blast
        with ev(3) have "joined g (fst e) v" "dv st v = dv st (fst e) + 1"
          by auto
        moreover from e have "e = (fst e, v)"
          by (cases e) simp
        ultimately show ?thesis
          using False e(1) by metis
      qed
      from True a b c show ?thesis
        unfolding dv_def by simp
    next
      case False
      with path have nD: "\<not> dsc st v"
        by blast
      with unset v d0(1) have "sint (bacon_number st ! v) = sint (d0 ! v)"
        by (simp add: dv_def)
      then have "bacon_number st ! v = d0 ! v"
        by (rule signed_word_eqI)
      moreover from nD ev(2) have "v \<notin> snd ` set ?L"
        by simp
      ultimately show ?thesis
        using False none by simp
    qed
  qed
  from run have "queue st = []"
    by (rule bfs_loop_queue_empty)
  with run post show ?thesis
    by (simp add: breadth_first_search_def)
qed

lemma build_demo:
  "fst (build demo) =
     \<lparr>actor_name = [''Kevin Bacon'', ''A'', ''B'', ''C'', ''D''],
       edge_ends = [(0, 1), (1, 2), (3, 4), (0, 1)],
       connecting_movie = [''M1'', ''M2'', ''M3'', ''M4'']\<rparr>"
  by code_simp

lemma kevin_bacon_demo:
  "kevin_bacon demo =
     Inr (Some \<lparr>queue = [], discovered = [True, True, True, False, False],
                 bacon_number = [0, 1, 2, 0, 0], tree_edge_events = [(0, 1), (1, 2)]\<rparr>)"
  by code_simp

lemma replicate_update_same: "(replicate k x)[i := x] = replicate k x"
proof (cases "i < k")
  case True
  then have "(replicate k x)[i := replicate k x ! i] = replicate k x"
    by (simp only: list_update_id)
  with True show ?thesis
    by simp
next
  case False
  then show ?thesis
    by (simp add: list_update_beyond not_less)
qed

lemma demo_reached:
  "hops (fst (build demo)) 0 v k \<Longrightarrow> v < 3"
proof (induction rule: hops.induct)
  case hops_source
  show ?case by simp
next
  case (hops_edge u k v)
  from hops_edge.hyps(2) have "(u, v) \<in> {(0, 1), (1, 2), (3, 4)} \<or> (v, u) \<in> {(0, 1), (1, 2), (3, 4)}"
    unfolding build_demo joined_def by auto
  with hops_edge.IH show ?case
    by auto
qed

text \<open>
  Claim C5 says that the vertices that no path reaches from the source remain unset or
  infinite.  In the run of \<open>main\<close> on \<open>demo\<close> the source is vertex 0 and no path leads
  from it to vertex 3, the actor \<open>C\<close>; the search ends with the entry 0 for vertex 3,
  the very entry of the source.
\<close>

theorem unreached_vertex_counterexample:
  "snd (build demo) ''Kevin Bacon'' = Some 0 \<and>
   \<not> (\<exists>k. hops (fst (build demo)) 0 3 k) \<and>
   kevin_bacon demo =
     Inr (Some \<lparr>queue = [], discovered = [True, True, True, False, False],
                 bacon_number = [0, 1, 2, 0, 0], tree_edge_events = [(0, 1), (1, 2)]\<rparr>)"
proof -
  have "snd (build demo) ''Kevin Bacon'' = Some 0"
    by code_simp
  moreover have "\<not> (\<exists>k. hops (fst (build demo)) 0 3 k)"
    using demo_reached [of 3] by auto
  ultimately show ?thesis
    using kevin_bacon_demo by (intro conjI)
qed

text \<open>
  Claim C5 as amended: for a data file of at least one line and of at most \<open>2^31\<close>
  different names, so that every distance fits an \<open>int\<close>, the run of \<open>main\<close> ends
  with the queue empty and leaves a state with the property \<open>bfs_postcondition\<close> for the
  graph read, the vertex of \<open>actors["Kevin Bacon"]\<close> as source and the zero-initialised
  vector: every vertex other than the source that a path reaches is the target of exactly
  one tree edge \<open>(u, v)\<close>, with the distance of \<open>v\<close> one above that of \<open>u\<close>;
  the distance of a reached vertex is the least number of edges of a path from the
  source; and a vertex that no path reaches is the target of no tree edge and keeps the
  0 the vector was created with, which is also the distance of the source.
\<close>

theorem bacon_numbers_are_hop_distances:
  "datafile \<noteq> [] \<Longrightarrow> graph_num_vertices (fst (build datafile)) \<le> 2 ^ 31 \<Longrightarrow>
   \<exists>st. kevin_bacon datafile = Inr (Some st) \<and> queue st = [] \<and>
        bfs_postcondition (fst (build datafile))
          (case snd (build datafile) ''Kevin Bacon'' of None \<Rightarrow> 0 | Some v \<Rightarrow> v)
          (replicate (graph_num_vertices (fst (build datafile))) 0) st"
proof -
  assume ne: "datafile \<noteq> []" and fits': "graph_num_vertices (fst (build datafile)) \<le> 2 ^ 31"
  obtain g actors where b: "build datafile = (g, actors)"
    by (cases "build datafile")
  let ?N = "graph_num_vertices g"
  let ?src = "case actors ''Kevin Bacon'' of None \<Rightarrow> 0 | Some v \<Rightarrow> v"
  from fits' have fits: "?N \<le> 2 ^ 31"
    by (simp add: b)
  from build_reflects [of datafile] have names: "set (actor_name g) = set (names_of datafile)"
    and idx: "\<forall>name u. actors name = Some u \<longleftrightarrow> u < ?N \<and> actor_name g ! u = name"
    unfolding b reflects_def by simp_all
  from build_well_formed [of datafile] have wf: "well_formed g"
    by (simp add: b)
  from ne have "names_of datafile \<noteq> []"
    by (cases datafile) (auto simp: names_of_def)
  with names have "actor_name g \<noteq> []"
    by auto
  then have pos: "0 < ?N"
    by (simp add: graph_num_vertices_def)
  have src: "?src < ?N"
  proof (cases "actors ''Kevin Bacon''")
    case None
    with pos show ?thesis by simp
  next
    case (Some v)
    with idx have "v < ?N" by blast
    with Some show ?thesis by simp
  qed
  have d0: "length (replicate ?N (0::int32)) = ?N" "replicate ?N (0::int32) ! ?src = 0"
    using src by simp_all
  from bfs_correct [OF wf fits src d0] obtain st where
    "breadth_first_search g ?src (replicate ?N 0) = Some st" "queue st = []"
    "bfs_postcondition g ?src (replicate ?N 0) st"
    by blast
  moreover have "kevin_bacon datafile = Inr (breadth_first_search g ?src (replicate ?N 0))"
    using src by (simp add: kevin_bacon_def b replicate_update_same)
  ultimately show ?thesis
    by (simp add: b)
qed

theorem bacon_numbers_witness:
  "demo \<noteq> [] \<and> graph_num_vertices (fst (build demo)) = 5 \<and>
   kevin_bacon demo =
     Inr (Some \<lparr>queue = [], discovered = [True, True, True, False, False],
                 bacon_number = [0, 1, 2, 0, 0], tree_edge_events = [(0, 1), (1, 2)]\<rparr>) \<and>
   hops (fst (build demo)) 0 2 2 \<and> \<not> hops (fst (build demo)) 0 2 1 \<and>
   \<not> hops (fst (build demo)) 0 4 1"
proof -
  let ?g = "fst (build demo)"
  let ?st = "\<lparr>queue = [], discovered = [True, True, True, False, False],
                 bacon_number = [0, 1, 2, 0, 0], tree_edge_events = [(0, 1), (1, 2)]\<rparr>"
  have ne: "demo \<noteq> []"
    by (simp add: demo_def)
  have src: "(case snd (build demo) ''Kevin Bacon'' of None \<Rightarrow> 0 | Some v \<Rightarrow> v) = 0"
    by code_simp
  have n5: "graph_num_vertices ?g = 5"
    by (simp add: build_demo graph_num_vertices_def)
  have fits: "graph_num_vertices ?g \<le> 2 ^ 31"
    unfolding n5 by simp
  from bacon_numbers_are_hop_distances [OF ne fits] have post: "bfs_postcondition ?g 0 (replicate 5 0) ?st"
    unfolding kevin_bacon_demo src n5 by simp
  have j: "joined ?g 0 1" "joined ?g 1 2"
    by (simp_all add: build_demo joined_def)
  have "hops ?g 0 1 (Suc 0)"
    using hops_source j(1) by (rule hops_edge)
  then have "hops ?g 0 2 (Suc (Suc 0))"
    using j(2) by (rule hops_edge)
  then have h2: "hops ?g 0 2 2"
    by (simp add: numeral_2_eq_2)
  from post have all: "\<forall>v < 5.
        if \<exists>k. hops ?g 0 v k
        then 0 \<le> sint (bacon_number ?st ! v) \<and>
             hops ?g 0 v (nat (sint (bacon_number ?st ! v))) \<and>
             (\<forall>k. hops ?g 0 v k \<longrightarrow> sint (bacon_number ?st ! v) \<le> int k) \<and>
             (if v = 0 then filter (\<lambda>e. snd e = v) (tree_edge_events ?st) = []
              else \<exists>u. filter (\<lambda>e. snd e = v) (tree_edge_events ?st) = [(u, v)] \<and> joined ?g u v \<and>
                     sint (bacon_number ?st ! v) = sint (bacon_number ?st ! u) + 1)
        else bacon_number ?st ! v = replicate 5 0 ! v \<and> filter (\<lambda>e. snd e = v) (tree_edge_events ?st) = []"
    unfolding bfs_postcondition_def n5 .
  from all [rule_format, of 2] h2 have "\<forall>k. hops ?g 0 2 k \<longrightarrow> 2 \<le> int k"
    by (simp split: if_splits)
  then have m: "\<not> hops ?g 0 2 1"
    by auto
  have "\<not> (\<exists>k. hops ?g 0 4 k)"
  proof
    assume r: "\<exists>k. hops ?g 0 4 k"
    with all [rule_format, of 4] have "filter (\<lambda>e. snd e = 4) (tree_edge_events ?st) \<noteq> []"
      by auto
    then show False
      by simp
  qed
  then have u: "\<not> hops ?g 0 4 1"
    by blast
  from ne n5 kevin_bacon_demo h2 m u show ?thesis
    by (intro conjI)
qed

section \<open>Properties of the circuit enumeration\<close>























subsection \<open>Arcs and vertices\<close>























end
